theory Spec2Isabelle
  imports Main
begin

section \<open>Python and pandas values\<close>

text \<open>
  The module \<^verbatim>\<open>bsmcalls/SNPnexus.py\<close> transforms pandas data frames. Exceptions are
  modelled as values: every function that can raise returns \<open>error + 'a\<close>, with
  \<open>Inl\<close> carrying the exception class. Only the classes that the code and the library
  calls it makes can raise are listed.
\<close>

datatype error =
  FileNotFoundError | KeyError | ValueError | TypeError | AttributeError
  | OverflowError | InvalidIndexError

text \<open>
  A cell of a frame is missing (\<open>NaN\<close>), a Python \<open>str\<close>, a number or a boolean.
  The numeric payload is never inspected by the code, only whether a cell is missing
  or is text.
\<close>

datatype cell = NaN | Str string | Num int | Flag bool

datatype dtype =
  Object | Float64 | Int64 | Int8 | Boolean | Categorical "cell list" bool

datatype column = Column (dtype: dtype) (cells: "cell list")

text \<open>
  A DataFrame is column-major: the row labels and an ordered list of labelled
  columns. \<open>'k\<close> is the type of row labels, \<open>'c\<close> the type of column labels.
\<close>

datatype ('k, 'c) frame = Frame (index: "'k list") (cols: "('c \<times> column) list")

definition labels :: "('k, 'c) frame \<Rightarrow> 'c list" where
  "labels df = map fst (cols df)"

text \<open>
  \<^verbatim>\<open>df[c]\<close>: KeyError when no column is labelled \<open>c\<close>. (With a repeated label
  pandas returns a sub-frame; the model returns the first such column, and the theorems
  about look-ups assume distinct labels.)
\<close>

definition getitem :: "('k, 'c) frame \<Rightarrow> 'c \<Rightarrow> error + column" where
  "getitem df c = (case map_of (cols df) c of None \<Rightarrow> Inl KeyError | Some x \<Rightarrow> Inr x)"

text \<open>
  \<^verbatim>\<open>df[c] = x\<close> for a list-like \<open>x\<close> (\<^verbatim>\<open>DataFrame.__setitem__\<close>). A new label is
  appended as the last column. An existing label is overwritten where it stands; when
  the label is repeated, every column carrying it is overwritten, with one exception:
  when the number \<open>k > 1\<close> of columns labelled \<open>c\<close> equals the length of \<open>x\<close>, pandas
  assigns element by element (\<^verbatim>\<open>_setitem_array([key], value)\<close>): the \<open>i\<close>-th of these
  columns is filled, in every row, with the scalar \<open>x[i]\<close>.
\<close>

definition scalar_dtype :: "dtype \<Rightarrow> cell \<Rightarrow> dtype" where
  "scalar_dtype d v =
     (case v of
        NaN \<Rightarrow> Float64
      | Str s \<Rightarrow> Object
      | Flag b \<Rightarrow> Boolean
      | Num n \<Rightarrow> (if d = Float64 then Float64 else if d = Int64 \<or> d = Object then Int64 else Int8))"

fun spread :: "'c \<Rightarrow> column \<Rightarrow> nat \<Rightarrow> nat \<Rightarrow> ('c \<times> column) list \<Rightarrow> ('c \<times> column) list" where
  "spread c x n i [] = []"
| "spread c x n i ((l, y) # r) =
     (if l = c
      then (l, Column (scalar_dtype (dtype x) (cells x ! i)) (replicate n (cells x ! i)))
             # spread c x n (Suc i) r
      else (l, y) # spread c x n i r)"

definition setitem :: "('k, 'c) frame \<Rightarrow> 'c \<Rightarrow> column \<Rightarrow> ('k, 'c) frame" where
  "setitem df c x =
     (let k = length (filter (\<lambda>l. l = c) (labels df)) in
      if k = 0 then Frame (index df) (cols df @ [(c, x)])
      else if 1 < k \<and> length (cells x) = k
      then Frame (index df) (spread c x (length (index df)) 0 (cols df))
      else Frame (index df) (map (\<lambda>(l, y). if l = c then (l, x) else (l, y)) (cols df)))"

text \<open>A list comprehension whose body may raise: the first exception ends it.\<close>

fun map_err :: "('a \<Rightarrow> error + 'b) \<Rightarrow> 'a list \<Rightarrow> error + 'b list" where
  "map_err f [] = Inr []"
| "map_err f (x # xs) =
     (case f x of
        Inl e \<Rightarrow> Inl e
      | Inr y \<Rightarrow> (case map_err f xs of Inl e \<Rightarrow> Inl e | Inr ys \<Rightarrow> Inr (y # ys)))"

text \<open>A \<^verbatim>\<open>for\<close> loop that updates one variable and whose body may raise.\<close>

fun fold_err :: "('a \<Rightarrow> 's \<Rightarrow> error + 's) \<Rightarrow> 'a list \<Rightarrow> 's \<Rightarrow> error + 's" where
  "fold_err f [] s = Inr s"
| "fold_err f (x # xs) s = (case f x s of Inl e \<Rightarrow> Inl e | Inr s' \<Rightarrow> fold_err f xs s')"

text \<open>
  \<^verbatim>\<open>str.split(sep)\<close> for a non-empty separator: scan left to right, cut at every
  non-overlapping occurrence. \<open>acc\<close> holds the current piece, reversed.
\<close>

function split_from :: "string \<Rightarrow> string \<Rightarrow> string \<Rightarrow> string list" where
  "split_from sep acc [] = [rev acc]"
| "split_from sep acc (c # cs) =
     (if sep \<noteq> [] \<and> take (length sep) (c # cs) = sep
      then rev acc # split_from sep [] (drop (length sep) (c # cs))
      else split_from sep (c # acc) cs)"
  by pat_completeness auto
termination
  by (relation "measure (\<lambda>(sep, acc, s). length s)") (auto simp: Suc_diff_le)

definition str_split :: "string \<Rightarrow> string \<Rightarrow> error + string list" where
  "str_split s sep = (if sep = [] then Inl ValueError else Inr (split_from sep [] s))"

text \<open>
  Iterating a Python \<^verbatim>\<open>set\<close> built from a list visits each distinct element once,
  in an order the language does not fix. The order is a parameter of the model: a
  function from the list the set was built from to the order of iteration.
\<close>

definition set_iter_ok :: "('a list \<Rightarrow> 'a list) \<Rightarrow> bool" where
  "set_iter_ok it = (\<forall>xs. distinct (it xs) \<and> set (it xs) = set xs)"

section \<open>Categorical Regularizer\<close>

text \<open>
  \<^verbatim>\<open>helper(old)\<close> inside \<^verbatim>\<open>regularize_categ_cols\<close>. The test
  \<^verbatim>\<open>old is np.nan\<close> is an identity test: a missing cell of an object or categorical
  column is the \<^verbatim>\<open>np.nan\<close> object itself, while iterating a float64 column yields fresh
  floats, which then fail the \<^verbatim>\<open>isinstance(old, str)\<close> test.
\<close>

definition helper :: "string list \<Rightarrow> dtype \<Rightarrow> cell \<Rightarrow> error + cell" where
  "helper categories dt old =
     (case old of
        NaN \<Rightarrow> (if dt = Float64 then Inl ValueError else Inr old)
      | Str s \<Rightarrow>
          (let l = split_from '':'' [] s in
           case find (\<lambda>cat. cat \<in> set l) categories of
             Some cat \<Rightarrow> Inr (Str cat)
           | None \<Rightarrow> Inr old)
      | _ \<Rightarrow> Inl ValueError)"

text \<open>
  \<^verbatim>\<open>pd.Categorical(s, categories=categories, ordered=True)\<close>: the categories must be
  unique, and every value that is not one of the categories becomes missing.
\<close>

definition Categorical_of :: "cell list \<Rightarrow> string list \<Rightarrow> error + column" where
  "Categorical_of s categories =
     (if \<not> distinct categories then Inl ValueError
      else Inr (Column (Categorical (map Str categories) True)
                  (map (\<lambda>v. if v \<in> set (map Str categories) then v else NaN) s)))"

text \<open>
  \<^verbatim>\<open>Categorical.fillna(value)\<close>: the fill value must be one of the categories
  (otherwise the call raises, whether or not a cell is missing).
\<close>

definition fillna :: "column \<Rightarrow> cell \<Rightarrow> error + column" where
  "fillna s v =
     (case dtype s of
        Categorical cats ordered \<Rightarrow>
          (if v \<notin> set cats then Inl ValueError
           else Inr (Column (dtype s) (map (\<lambda>x. if x = NaN then v else x) (cells s))))
      | _ \<Rightarrow> Inr (Column (dtype s) (map (\<lambda>x. if x = NaN then v else x) (cells s))))"

text \<open>
  One turn of the loop \<^verbatim>\<open>for col, categories in d.items()\<close>. \<open>d\<close> is a deep copy of
  the caller's dictionary, so \<^verbatim>\<open>categories += ['other']\<close> leaves the argument as it
  was; the model has no mutation to undo. (The lists of two keys are taken to be
  separate objects.)
\<close>

definition regularize_col ::
  "string \<Rightarrow> string \<times> string list \<Rightarrow> ('k, string) frame \<Rightarrow> error + ('k, string) frame" where
  "regularize_col nafillval entry val =
     (let col = fst entry; categories = snd entry @ [''other''] in
      case getitem val col of
        Inl e \<Rightarrow> Inl e
      | Inr s \<Rightarrow>
          (case map_err (helper categories (dtype s)) (cells s) of
             Inl e \<Rightarrow> Inl e
           | Inr s1 \<Rightarrow>
               (case Categorical_of s1 categories of
                  Inl e \<Rightarrow> Inl e
                | Inr s2 \<Rightarrow>
                    (case fillna s2 (Str nafillval) of
                       Inl e \<Rightarrow> Inl e
                     | Inr s3 \<Rightarrow> Inr (setitem val col s3)))))"

text \<open>
  \<^verbatim>\<open>regularize_categ_cols(colsdict, annot, calls, nafillval)\<close>. The dictionary is an
  association list in insertion order; \<open>calls\<close> is accepted and never read.
\<close>

definition regularize_categ_cols ::
  "(string \<times> string list) list \<Rightarrow> ('k, string) frame \<Rightarrow> ('j, 'd) frame \<Rightarrow> string
     \<Rightarrow> error + ('k, string) frame" where
  "regularize_categ_cols colsdict annot calls nafillval =
     fold_err (regularize_col nafillval) colsdict annot"

text \<open>
  What the regularizer leaves in a text cell \<open>raw\<close>, given the extended category list:
  the first category found among the tokens; failing that the raw value, which survives
  the conversion to the categorical type only when it is itself a category, and is
  otherwise filled like a missing cell.
\<close>

definition regularized :: "string list \<Rightarrow> string \<Rightarrow> string \<Rightarrow> cell" where
  "regularized categories nafillval raw =
     (case find (\<lambda>cat. cat \<in> set (split_from '':'' [] raw)) categories of
        Some cat \<Rightarrow> Str cat
      | None \<Rightarrow> if raw \<in> set categories then Str raw else Str nafillval)"

section \<open>Set-Valued Vectorizer\<close>

text \<open>
  \<^verbatim>\<open>vectorize_setvalued(annot, colname, nonestr, sepstr)\<close> changes \<open>annot\<close> in place
  and returns it; the model returns the changed frame. A cell that is not a
  \<^verbatim>\<open>str\<close> has no \<^verbatim>\<open>split\<close> (AttributeError). \<open>it\<close> is the order in which the
  set of tokens is iterated. The list \<open>colnames\<close> is computed as in the source and, as
  in the source, never used: each new column is written with \<^verbatim>\<open>annot[col] = ...\<close>.
\<close>

definition vectorize_setvalued ::
  "(string list \<Rightarrow> string list) \<Rightarrow> ('k, string) frame \<Rightarrow> string \<Rightarrow> string \<Rightarrow> string
     \<Rightarrow> error + ('k, string) frame" where
  "vectorize_setvalued it annot colname nonestr sepstr =
     (case getitem annot colname of
        Inl e \<Rightarrow> Inl e
      | Inr c \<Rightarrow>
          (case map_err (\<lambda>y. case y of Str t \<Rightarrow> str_split t sepstr | _ \<Rightarrow> Inl AttributeError)
                  (cells c) of
             Inl e \<Rightarrow> Inl e
           | Inr ll \<Rightarrow>
               (let s = filter (\<lambda>y. y \<noteq> nonestr) (it (concat ll));
                    prefix = (if \<exists>y \<in> set s. y \<in> set (labels annot) then colname @ ''_'' else []);
                    new_colnames = map (\<lambda>y. prefix @ y) s;
                    old_colnames = labels annot;
                    ix = length (takeWhile (\<lambda>l. l \<noteq> colname) old_colnames);
                    colnames = take ix old_colnames @ new_colnames @ drop ix old_colnames
                in Inr (fold (\<lambda>col a. setitem a col
                                (Column Boolean (map (\<lambda>y. Flag (col \<in> set y)) ll)))
                          new_colnames annot))))"

text \<open>
  The argument \<open>nonestrl\<close> of \<^verbatim>\<open>vectorize_multiple_setvalued\<close> is documented as a list
  of strings, and its default is the string \<^verbatim>\<open>'None'\<close>. \<^verbatim>\<open>zip\<close> iterates either:
  a list by its elements, a string by its characters.
\<close>

datatype pyseq = PyStr string | PyList "string list"

fun py_iter :: "pyseq \<Rightarrow> string list" where
  "py_iter (PyStr s) = map (\<lambda>c. [c]) s"
| "py_iter (PyList l) = l"

definition default_nonestrl :: pyseq where
  "default_nonestrl = PyStr ''None''"

definition vectorize_multiple_setvalued ::
  "(string list \<Rightarrow> string list) \<Rightarrow> ('k, string) frame \<Rightarrow> string list \<Rightarrow> pyseq \<Rightarrow> string
     \<Rightarrow> error + ('k, string) frame" where
  "vectorize_multiple_setvalued it annot colnamel nonestrl sepstr =
     fold_err (\<lambda>(colname, nonestr) data. vectorize_setvalued it data colname nonestr sepstr)
       (zip colnamel (py_iter nonestrl)) annot"

section \<open>Selecting and stacking rows\<close>

text \<open>
  The rows at the given positions, in that order (\<^verbatim>\<open>iloc\<close>); \<^verbatim>\<open>annot.loc[[var]]\<close>
  is every row labelled \<open>var\<close>, in the order of the frame. Both keep the dtypes.
\<close>

definition take_rows :: "nat list \<Rightarrow> ('k, 'c) frame \<Rightarrow> ('k, 'c) frame" where
  "take_rows ps df =
     Frame (map (\<lambda>p. index df ! p) ps)
       (map (\<lambda>(l, c). (l, Column (dtype c) (map (\<lambda>p. cells c ! p) ps))) (cols df))"

definition positions :: "'k \<Rightarrow> 'k list \<Rightarrow> nat list" where
  "positions var idx = filter (\<lambda>p. idx ! p = var) [0..<length idx]"

definition loc :: "('k, 'c) frame \<Rightarrow> 'k \<Rightarrow> ('k, 'c) frame" where
  "loc df var = take_rows (positions var (index df)) df"

text \<open>
  The dtype of the pieces of one column put together. \<open>missing\<close> says that some
  frame lacks the column and contributes missing cells. The same dtype throughout is
  kept; text or categorical pieces give object; booleans next to anything else give
  object; integers stay integers unless a float or a missing piece is among them.
\<close>

fun is_categorical :: "dtype \<Rightarrow> bool" where
  "is_categorical (Categorical cs b) = True"
| "is_categorical d = False"

definition common_dtype :: "dtype list \<Rightarrow> bool \<Rightarrow> dtype" where
  "common_dtype ds missing =
     (if \<not> missing \<and> ds \<noteq> [] \<and> list_all (\<lambda>d. d = hd ds) ds then hd ds
      else if Object \<in> set ds \<or> list_ex is_categorical ds then Object
      else if Boolean \<in> set ds then Object
      else if missing \<or> Float64 \<in> set ds then Float64
      else Int64)"

text \<open>First-appearance order of the labels of several frames.\<close>

definition union_labels :: "'c list list \<Rightarrow> 'c list" where
  "union_labels ls = rev (remdups (rev (concat ls)))"

text \<open>
  \<^verbatim>\<open>pd.concat(objs, axis=0)\<close>: \<^verbatim>\<open>None\<close> entries are dropped; an empty list, or
  one of \<^verbatim>\<open>None\<close> only, is a ValueError. The rows are stacked in order. Frames with
  the same labels are stacked column by column; otherwise the columns are the union
  of the labels, a frame lacking a column contributes missing cells, and a frame with
  a repeated label cannot be aligned.
\<close>

definition piece :: "('k, 'c) frame \<Rightarrow> 'c \<Rightarrow> cell list" where
  "piece df l =
     (case map_of (cols df) l of
        Some c \<Rightarrow> cells c
      | None \<Rightarrow> replicate (length (index df)) NaN)"

definition somes :: "'a option list \<Rightarrow> 'a list" where
  "somes objs = concat (map (\<lambda>obj. case obj of None \<Rightarrow> [] | Some x \<Rightarrow> [x]) objs)"

definition concat_rows :: "('k, 'c) frame option list \<Rightarrow> error + ('k, 'c) frame" where
  "concat_rows objs =
     (let fs = somes objs in
      if fs = [] then Inl ValueError
      else if list_all (\<lambda>df. labels df = labels (hd fs)) fs
      then Inr (Frame (concat (map index fs))
             (map (\<lambda>j. (labels (hd fs) ! j,
                     Column (common_dtype (map (\<lambda>df. dtype (snd (cols df ! j))) fs) False)
                       (concat (map (\<lambda>df. cells (snd (cols df ! j))) fs))))
                [0..<length (labels (hd fs))]))
      else if list_ex (\<lambda>df. \<not> distinct (labels df)) fs then Inl InvalidIndexError
      else Inr (Frame (concat (map index fs))
             (map (\<lambda>l. (l,
                     Column (common_dtype
                               (concat (map (\<lambda>df. case map_of (cols df) l of
                                                     None \<Rightarrow> [] | Some c \<Rightarrow> [dtype c]) fs))
                               (list_ex (\<lambda>df. l \<notin> set (labels df)) fs))
                       (concat (map (\<lambda>df. piece df l) fs))))
                (union_labels (map labels fs)))))"

section \<open>Duplicate Resolver\<close>

text \<open>
  \<^verbatim>\<open>sep.join(list(lines[col]))\<close>: every item must be a \<^verbatim>\<open>str\<close>, otherwise
  TypeError.
\<close>

fun str_join :: "string \<Rightarrow> cell list \<Rightarrow> error + string" where
  "str_join sep [] = Inr []"
| "str_join sep [Str s] = Inr s"
| "str_join sep (Str s # x # xs) =
     (case str_join sep (x # xs) of Inl e \<Rightarrow> Inl e | Inr r \<Rightarrow> Inr (s @ sep @ r))"
| "str_join sep (c # xs) = Inl TypeError"

text \<open>
  One turn of \<^verbatim>\<open>for col in annot.columns\<close> inside \<^verbatim>\<open>do_var\<close>: a column of dtype
  object is collapsed into the joined string, written into the single row \<open>line\<close>.
  The value assigned is one string, broadcast over the single row: a one-cell column.
\<close>

definition collapse_col ::
  "string \<Rightarrow> ('k, 'c) frame \<Rightarrow> 'c \<Rightarrow> ('k, 'c) frame \<Rightarrow> error + ('k, 'c) frame" where
  "collapse_col sep lines col line =
     (case getitem lines col of
        Inl e \<Rightarrow> Inl e
      | Inr c \<Rightarrow>
          (if dtype c = Object
           then (case str_join sep (cells c) of
                   Inl e \<Rightarrow> Inl e
                 | Inr j \<Rightarrow> Inr (setitem line col (Column Object [Str j])))
           else Inr line))"

definition do_var :: "('k, 'c) frame \<Rightarrow> string \<Rightarrow> 'k \<Rightarrow> error + ('k, 'c) frame" where
  "do_var annot sep var =
     (let lines = loc annot var in
      if length (index lines) = 1 then Inr lines
      else fold_err (collapse_col sep lines) (labels annot) (take_rows [0] lines))"

text \<open>
  \<^verbatim>\<open>annotation_duplicates(annot, sep)\<close>. \<open>it\<close> is the order in which the set of row
  labels \<^verbatim>\<open>A = set(annot.index)\<close> is iterated.
\<close>

definition annotation_duplicates ::
  "('k list \<Rightarrow> 'k list) \<Rightarrow> ('k, 'c) frame \<Rightarrow> string \<Rightarrow> error + ('k, 'c) frame" where
  "annotation_duplicates it annot sep =
     (if distinct (index annot) then Inr annot
      else (case map_err (do_var annot sep) (it (index annot)) of
              Inl e \<Rightarrow> Inl e
            | Inr l \<Rightarrow> concat_rows (map Some l)))"

text \<open>
  The value the resolver leaves for the row label \<open>var\<close> in a column \<open>c\<close>: for a
  label with several rows and a column of dtype object, the values of those rows,
  in their order, joined by the separator; otherwise the value of the first row.
\<close>

fun is_text :: "cell \<Rightarrow> bool" where
  "is_text (Str s) = True"
| "is_text c = False"

fun text_of :: "cell \<Rightarrow> string" where
  "text_of (Str s) = s"
| "text_of c = []"

fun join_strs :: "string \<Rightarrow> string list \<Rightarrow> string" where
  "join_strs sep [] = []"
| "join_strs sep [s] = s"
| "join_strs sep (s # t # ts) = s @ sep @ join_strs sep (t # ts)"

definition row_cell :: "('k, 'c) frame \<Rightarrow> string \<Rightarrow> 'k \<Rightarrow> column \<Rightarrow> cell" where
  "row_cell annot sep var c =
     (let ps = positions var (index annot) in
      if 1 < length ps \<and> dtype c = Object
      then Str (join_strs sep (map (\<lambda>p. text_of (cells c ! p)) ps))
      else cells c ! hd ps)"

text \<open>
  Every cell of a column of dtype object, in a row whose label occurs more than once,
  is text.
\<close>

definition text_in_duplicates :: "('k, 'c) frame \<Rightarrow> bool" where
  "text_in_duplicates annot =
     list_all (\<lambda>(l, c). dtype c = Object \<longrightarrow>
        list_all (\<lambda>p. 1 < length (positions (index annot ! p) (index annot))
                      \<longrightarrow> is_text (cells c ! p))
          [0..<length (index annot)])
       (cols annot)"

text \<open>
  The single row the resolver makes for the label \<open>var\<close>, and the state of that row
  while the loop over the columns has treated the columns in \<open>S\<close>.
\<close>

definition resolved_row :: "('k, 'c) frame \<Rightarrow> string \<Rightarrow> 'k \<Rightarrow> ('k, 'c) frame" where
  "resolved_row annot sep var =
     Frame [var] (map (\<lambda>(l, c). (l, Column (dtype c) [row_cell annot sep var c])) (cols annot))"

definition partial_row :: "('k, 'c) frame \<Rightarrow> string \<Rightarrow> 'k \<Rightarrow> 'c set \<Rightarrow> ('k, 'c) frame" where
  "partial_row annot sep var S =
     Frame [var]
       (map (\<lambda>(l, c). (l, Column (dtype c)
                [if l \<in> S then row_cell annot sep var c
                 else cells c ! hd (positions var (index annot))]))
          (cols annot))"

text \<open>Two small frames with a repeated row label, used as examples.\<close>

definition dup_example :: "(nat, string) frame" where
  "dup_example = Frame [1, 2, 1, 3, 1]
     [(''gene'', Column Object [Str ''A'', Str ''B'', Str ''C'', NaN, Str ''D'']),
      (''score'', Column Float64 [Num 1, NaN, NaN, Num 2, Num 7])]"

definition dup_example_nan :: "(nat, string) frame" where
  "dup_example_nan = Frame [1, 2, 1]
     [(''gene'', Column Object [Str ''A'', Str ''B'', NaN])]"

text \<open>A frame of one row with the given column labels.\<close>

definition one_row :: "'c list \<Rightarrow> ('k, 'c) frame \<Rightarrow> bool" where
  "one_row L df = (labels df = L \<and> list_all (\<lambda>(l, c). length (cells c) = 1) (cols df))"

text \<open>
  A column the regularizer accepts: not of dtype float64, every cell missing or text.
\<close>

definition regularizable :: "column \<Rightarrow> bool" where
  "regularizable s = (dtype s \<noteq> Float64 \<and> list_all (\<lambda>x. x = NaN \<or> is_text x) (cells s))"

section \<open>Annotation Table Reader\<close>

text \<open>
  The row label of an annotation table is the Variant Key. The column labels are
  flat strings (\<^verbatim>\<open>simplecolumns=True\<close>) or pairs of source and annotation.
\<close>

datatype variant_key =
  VariantKey (key_individual: string) (key_tissue: string) (key_chrom: string)
    (key_pos: int) (key_mutation: string)

datatype label = Simple string | Multi string string

text \<open>
  \<^verbatim>\<open>tsvpath2annotname\<close>: \<^verbatim>\<open>re.sub('.txt', '', os.path.basename(tsvpath))\<close>. The
  dot of the pattern is not escaped: every occurrence of any character but a newline
  followed by \<open>txt\<close> is removed, scanning from the left.
\<close>

definition basename :: "string \<Rightarrow> string" where
  "basename p = rev (takeWhile (\<lambda>c. c \<noteq> CHR ''/'') (rev p))"

function sub_dot_txt :: "string \<Rightarrow> string" where
  "sub_dot_txt [] = []"
| "sub_dot_txt (c # cs) =
     (if c \<noteq> CHR 0x0A \<and> take 3 cs = ''txt'' then sub_dot_txt (drop 3 cs)
      else c # sub_dot_txt cs)"
  by pat_completeness auto
termination
  by (relation "measure length") auto

definition tsvpath2annotname :: "string \<Rightarrow> string" where
  "tsvpath2annotname tsvpath = sub_dot_txt (basename tsvpath)"

text \<open>
  \<^verbatim>\<open>varid2index\<close>: \<^verbatim>\<open>re.sub('^chr(.+):1$', '\\1', varid)\<close>, then
  \<^verbatim>\<open>split(':')\<close>. The pattern matches the whole string only: it must start with
  \<open>chr\<close>, end with \<open>:1\<close> (or with \<open>:1\<close> and a final newline, which \<open>$\<close> allows and
  the substitution keeps), with at least one character, none a newline, in between.
  A string that does not match is left as it is.
\<close>

definition strip_chr :: "string \<Rightarrow> string" where
  "strip_chr varid =
     (let n = length varid;
          m = take (n - 5) (drop 3 varid);
          m' = take (n - 6) (drop 3 varid) in
      if 6 \<le> n \<and> take 3 varid = ''chr'' \<and> drop (n - 2) varid = '':1''
          \<and> CHR 0x0A \<notin> set m
      then m
      else if 7 \<le> n \<and> take 3 varid = ''chr''
          \<and> drop (n - 3) varid = [CHR '':'', CHR ''1'', CHR 0x0A] \<and> CHR 0x0A \<notin> set m'
      then m' @ [CHR 0x0A]
      else varid)"

definition varid2index :: "string \<Rightarrow> string list" where
  "varid2index varid = split_from '':'' [] (strip_chr varid)"

text \<open>
  \<^verbatim>\<open>df['POS'].astype('int64')\<close> on a column of strings converts each string with
  Python's \<^verbatim>\<open>int\<close>: surrounding white space is dropped, then come an optional sign
  and decimal digits, where single underscores may stand between digits. Anything
  else is a ValueError, a value outside the 64-bit range an OverflowError. White space
  is, among the characters below 128, the blank, the control characters 9 to 13 and
  28 to 31. (Digits and white space outside ASCII are not modelled.)
\<close>

definition is_digit :: "char \<Rightarrow> bool" where
  "is_digit c = (c \<in> set ''0123456789'')"

definition is_space :: "char \<Rightarrow> bool" where
  "is_space c = (c \<in> set [CHR '' '', CHR 0x09, CHR 0x0A, CHR 0x0B, CHR 0x0C, CHR 0x0D,
                           CHR 0x1C, CHR 0x1D, CHR 0x1E, CHR 0x1F])"

definition py_strip :: "string \<Rightarrow> string" where
  "py_strip s = rev (dropWhile is_space (rev (dropWhile is_space s)))"

fun digit_groups :: "string \<Rightarrow> bool" where
  "digit_groups [] = False"
| "digit_groups [c] = is_digit c"
| "digit_groups (c # d # r) =
     (is_digit c \<and> (if d = CHR ''_'' then digit_groups r else digit_groups (d # r)))"

definition digits_val :: "string \<Rightarrow> int" where
  "digits_val ds = foldl (\<lambda>a c. 10 * a + (of_char c - 48)) 0 ds"

definition astype_int64 :: "string \<Rightarrow> error + int" where
  "astype_int64 s0 =
     (let s = py_strip s0;
          neg = (s \<noteq> [] \<and> hd s = CHR ''-'');
          ds = (if s \<noteq> [] \<and> (hd s = CHR ''-'' \<or> hd s = CHR ''+'') then tl s else s) in
      if \<not> digit_groups ds then Inl ValueError
      else (let n = digits_val (filter (\<lambda>c. c \<noteq> CHR ''_'') ds);
                v = (if neg then - n else n) in
            if v < - (2 ^ 63) \<or> 2 ^ 63 \<le> v then Inl OverflowError else Inr v))"

text \<open>
  \<^verbatim>\<open>read_TXT_per_annotation\<close>. Reading the file is the environment's part:
  \<open>read_csv path na_values\<close> is the parsed table, with the row numbers as its index,
  or the exception \<^verbatim>\<open>pd.read_csv\<close> raises (FileNotFoundError for an absent file;
  its parser errors are ValueErrors). The steps after it, in the order of the source:
  the rows \<^verbatim>\<open>[indivID, tissue] + varid2index(s)\<close> (a cell that is not a \<^verbatim>\<open>str\<close>
  makes \<^verbatim>\<open>re.sub\<close> raise TypeError); the frame of five columns built from them
  (ValueError unless there is at least one row and every row has five fields); the
  conversion of \<open>POS\<close>; the new index; the removal of the three identity columns;
  the renaming of the columns that remain.
\<close>

definition id_row :: "string \<Rightarrow> string \<Rightarrow> cell \<Rightarrow> error + string list" where
  "id_row indivID tissue s =
     (case s of Str v \<Rightarrow> Inr ([indivID, tissue] @ varid2index v) | _ \<Rightarrow> Inl TypeError)"

definition row_key :: "string list \<Rightarrow> error + variant_key" where
  "row_key r =
     (case astype_int64 (r ! 3) of
        Inl e \<Rightarrow> Inl e
      | Inr p \<Rightarrow> Inr (VariantKey (r ! 0) (r ! 1) (r ! 2) p (r ! 4)))"

definition identity_columns :: "string list" where
  "identity_columns = [''Variation ID'', ''Chromosome'', ''Position'']"

definition rename_label :: "bool \<Rightarrow> string \<Rightarrow> string \<Rightarrow> label" where
  "rename_label simplecolumns annotname a =
     (if simplecolumns then Simple (annotname @ ''_'' @ a) else Multi annotname a)"

definition read_TXT_per_annotation ::
  "(string \<Rightarrow> string list \<Rightarrow> error + (nat, string) frame) \<Rightarrow> string \<Rightarrow> string \<Rightarrow> string
     \<Rightarrow> string option \<Rightarrow> string list \<Rightarrow> bool \<Rightarrow> error + (variant_key, label) frame" where
  "read_TXT_per_annotation read_csv tsvpath indivID tissue annotname na_values simplecolumns =
     (let annotname = (case annotname of None \<Rightarrow> tsvpath2annotname tsvpath | Some a \<Rightarrow> a) in
      case read_csv tsvpath na_values of
        Inl e \<Rightarrow> Inl e
      | Inr annot \<Rightarrow>
          (case getitem annot ''Variation ID'' of
             Inl e \<Rightarrow> Inl e
           | Inr vid \<Rightarrow>
               (case map_err (id_row indivID tissue) (cells vid) of
                  Inl e \<Rightarrow> Inl e
                | Inr l \<Rightarrow>
                    (if l = [] \<or> \<not> list_all (\<lambda>r. length r = 5) l then Inl ValueError
                     else (case map_err row_key l of
                             Inl e \<Rightarrow> Inl e
                           | Inr keys \<Rightarrow>
                               Inr (Frame keys
                                      (map (\<lambda>(a, c). (rename_label simplecolumns annotname a, c))
                                         (filter (\<lambda>(a, c). a \<notin> set identity_columns)
                                            (cols annot)))))))))"

text \<open>
  A well-formed identity token is \<open>chr\<close>, the chromosome, the position in decimal
  digits and the mutation, separated by colons, then \<open>:1\<close>.
\<close>

definition token :: "string \<times> string \<times> string \<Rightarrow> string" where
  "token t = (case t of (c, p, m) \<Rightarrow> ''chr'' @ c @ '':'' @ p @ '':'' @ m @ '':1'')"

definition wf_field :: "string \<Rightarrow> bool" where
  "wf_field s = (CHR '':'' \<notin> set s \<and> CHR 0x0A \<notin> set s)"

definition wf_token :: "string \<times> string \<times> string \<Rightarrow> bool" where
  "wf_token t =
     (case t of (c, p, m) \<Rightarrow>
        wf_field c \<and> wf_field m \<and> p \<noteq> [] \<and> list_all is_digit p \<and> digits_val p < 2 ^ 63)"

definition token_key :: "string \<Rightarrow> string \<Rightarrow> string \<times> string \<times> string \<Rightarrow> variant_key" where
  "token_key indivID tissue t =
     (case t of (c, p, m) \<Rightarrow> VariantKey indivID tissue c (digits_val p) m)"

text \<open>A small SNPnexus table, and the same table with tokens that lack \<open>chr\<close>.\<close>

definition near_gens_example :: "(nat, string) frame" where
  "near_gens_example = Frame [0, 1]
     [(''Variation ID'', Column Object [Str ''chr1:12345:A/G:1'', Str ''chrX:678:C/T:1'']),
      (''Chromosome'', Column Object [Str ''1'', Str ''X'']),
      (''Position'', Column Int64 [Num 12345, Num 678]),
      (''Overlapped Gene'', Column Object [Str ''BRCA1'', Str ''None'']),
      (''Distance'', Column Float64 [Num 7, NaN])]"

definition no_chr_example :: "(nat, string) frame" where
  "no_chr_example = Frame [0]
     [(''Variation ID'', Column Object [Str ''1:12345:A/G:1'']),
      (''Overlapped Gene'', Column Object [Str ''BRCA1''])]"

section \<open>Reindexing\<close>

text \<open>
  A dtype that cannot hold a missing value is upcast when reindexing introduces one.
\<close>

fun na_dtype :: "dtype \<Rightarrow> dtype" where
  "na_dtype Int64 = Float64"
| "na_dtype Int8 = Float64"
| "na_dtype Boolean = Object"
| "na_dtype d = d"

text \<open>
  \<^verbatim>\<open>df.reindex(columns=ls)\<close>: the columns named by \<open>ls\<close>, in that order; a label the
  frame lacks gives a column of missing values. A frame with a repeated label can only
  be reindexed to its own labels (ValueError otherwise).
\<close>

definition reindex_columns :: "('k, 'c) frame \<Rightarrow> 'c list \<Rightarrow> error + ('k, 'c) frame" where
  "reindex_columns df ls =
     (if labels df = ls then Inr df
      else if \<not> distinct (labels df) then Inl ValueError
      else Inr (Frame (index df)
             (map (\<lambda>l. (l, case map_of (cols df) l of
                            Some c \<Rightarrow> c
                          | None \<Rightarrow> Column Float64 (replicate (length (index df)) NaN)))
                ls)))"

text \<open>
  \<^verbatim>\<open>df.reindex(index=target)\<close>: one row per label of \<open>target\<close>, in its order; the row
  of the frame with that label, or a row of missing values when the frame has none.
  A frame with a repeated row label can only be reindexed to its own index.
\<close>

definition lookup_cell :: "'k list \<Rightarrow> cell list \<Rightarrow> 'k \<Rightarrow> cell" where
  "lookup_cell idx cs k = (case map_of (zip idx cs) k of Some v \<Rightarrow> v | None \<Rightarrow> NaN)"

definition reindex_rows :: "('k, 'c) frame \<Rightarrow> 'k list \<Rightarrow> error + ('k, 'c) frame" where
  "reindex_rows df target =
     (if index df = target then Inr df
      else if \<not> distinct (index df) then Inl ValueError
      else Inr (Frame target
             (map (\<lambda>(l, c). (l, Column (if set target \<subseteq> set (index df) then dtype c
                                         else na_dtype (dtype c))
                                 (map (lookup_cell (index df) (cells c)) target)))
                (cols df))))"

section \<open>Binarizer\<close>

text \<open>
  \<^verbatim>\<open>extended_columns\<close>: \<^verbatim>\<open>functools.reduce(operator.concat, l)\<close> has no initial
  value, so an empty list of columns is a TypeError.
\<close>

definition extended_columns :: "string list \<Rightarrow> string list \<Rightarrow> string \<Rightarrow> error + string list" where
  "extended_columns columns cols2insert suffix =
     (let l = map (\<lambda>c. if c \<in> set cols2insert then [c, c @ suffix] else [c]) columns in
      if l = [] then Inl TypeError else Inr (concat l))"

text \<open>
  \<^verbatim>\<open>do_col(col)\<close>: \<^verbatim>\<open>np.int8(val[col].isna())\<close> is 1 where the cell is missing and
  0 elsewhere; \<^verbatim>\<open>pd.Categorical(s)\<close> takes the sorted distinct values as categories.
\<close>

definition isna_int8 :: "cell list \<Rightarrow> cell list" where
  "isna_int8 cs = map (\<lambda>x. Num (if x = NaN then 1 else 0)) cs"

definition indicator :: "bool \<Rightarrow> cell list \<Rightarrow> column" where
  "indicator do_categ cs =
     (let s = isna_int8 cs in
      if do_categ then Column (Categorical (filter (\<lambda>v. v \<in> set s) [Num 0, Num 1]) False) s
      else Column Int8 s)"

definition do_col ::
  "string \<Rightarrow> bool \<Rightarrow> string \<Rightarrow> ('k, string) frame \<Rightarrow> error + ('k, string) frame" where
  "do_col suffix do_categ col val =
     (case getitem val col of
        Inl e \<Rightarrow> Inl e
      | Inr c \<Rightarrow> Inr (setitem val (col @ suffix) (indicator do_categ (cells c))))"

definition binarize_cols ::
  "string list \<Rightarrow> ('k, string) frame \<Rightarrow> ('k, 'd) frame \<Rightarrow> string \<Rightarrow> bool
     \<Rightarrow> error + ('k, string) frame" where
  "binarize_cols cols2binarize annot calls suffix do_categ =
     (case extended_columns (labels annot) cols2binarize suffix of
        Inl e \<Rightarrow> Inl e
      | Inr columns \<Rightarrow>
          (case reindex_columns annot columns of
             Inl e \<Rightarrow> Inl e
           | Inr val \<Rightarrow>
               (case reindex_rows val (index calls) of
                  Inl e \<Rightarrow> Inl e
                | Inr val' \<Rightarrow> fold_err (do_col suffix do_categ) cols2binarize val')))"





section \<open>Multi-Source Joiner\<close>

text \<open>
  The sample pattern \<^verbatim>\<open>((MSSM|PITT)_[0-9]+)_(NeuN_pl|NeuN_mn|muscle)\<close>, matched at the
  start of a string: group 1, group 3 and the text after the match. The digits are
  matched greedily, and since an underscore must follow them, the longest run of
  digits is the only candidate.
\<close>

definition match_sample :: "string \<Rightarrow> (string \<times> string \<times> string) option" where
  "match_sample s =
     (if take 5 s = ''MSSM_'' \<or> take 5 s = ''PITT_''
      then (let after = drop 5 s;
                ds = takeWhile is_digit after;
                rest = dropWhile is_digit after in
            if ds = [] \<or> take 1 rest \<noteq> ''_'' then None
            else (case find (\<lambda>t. take (length t) (tl rest) = t)
                         [''NeuN_pl'', ''NeuN_mn'', ''muscle''] of
                    None \<Rightarrow> None
                  | Some t \<Rightarrow> Some (take 4 s @ ''_'' @ ds, t, drop (length t) (tl rest))))
      else None)"

text \<open>
  \<^verbatim>\<open>re.sub(samplestr, repl, sample)\<close>: every match, found from the left and not
  overlapping, is replaced; the text between matches is kept.
\<close>

lemma match_sample_shorter:
  assumes "match_sample s = Some m"
  shows "length (snd (snd m)) < length s"
proof -
  from assms have 5: "take 5 s = ''MSSM_'' \<or> take 5 s = ''PITT_''"
    by (auto simp: match_sample_def split: if_splits)
  then have "length (take 5 s) = length ''MSSM_''" by (metis length_Cons)
  then have s: "5 \<le> length s" by simp
  from assms 5 have "length (snd (snd m)) \<le> length (dropWhile is_digit (drop 5 s))"
    by (auto simp: match_sample_def Let_def split: if_splits option.splits)
  also have "\<dots> \<le> length (drop 5 s)" by (rule length_dropWhile_le)
  also have "\<dots> < length s" using s by simp
  finally show ?thesis .
qed

function sub_sample :: "(string \<Rightarrow> string \<Rightarrow> string) \<Rightarrow> string \<Rightarrow> string" where
  "sub_sample repl [] = []"
| "sub_sample repl (c # cs) =
     (case match_sample (c # cs) of
        None \<Rightarrow> c # sub_sample repl cs
      | Some m \<Rightarrow> repl (fst m) (fst (snd m)) @ sub_sample repl (snd (snd m)))"
  by pat_completeness auto
termination
  by (relation "measure (\<lambda>(repl, s). length s)") (auto dest: match_sample_shorter)

definition sample2indivID :: "string \<Rightarrow> string" where
  "sample2indivID sample = sub_sample (\<lambda>g1 g3. ''CMC_'' @ g1) sample"

definition sample2tissue :: "string \<Rightarrow> string" where
  "sample2tissue sample = sub_sample (\<lambda>g1 g3. g3) sample"

text \<open>
  The argument \<open>na_values\<close> is used as a dictionary from annotation type to markers;
  its default is the empty list, on which \<^verbatim>\<open>na_values.keys()\<close> is an AttributeError.
\<close>

datatype na_spec = NaList "string list" | NaDict "(string \<times> string list) list"

text \<open>
  \<^verbatim>\<open>get_annot(sample, annotyp)\<close>: the table of one sample and one source, read and
  freed of duplicates. \<^verbatim>\<open>except ValueError\<close> turns a ValueError of either step into
  \<^verbatim>\<open>None\<close>; every other exception leaves the function.
\<close>

definition get_annot ::
  "(string \<Rightarrow> string list \<Rightarrow> error + (nat, string) frame)
     \<Rightarrow> (variant_key list \<Rightarrow> variant_key list) \<Rightarrow> string \<Rightarrow> na_spec \<Rightarrow> bool
     \<Rightarrow> string \<Rightarrow> string \<Rightarrow> error + (variant_key, label) frame option" where
  "get_annot read_csv it annotdirpath na_values simplecolumns sample annotyp =
     (let sampledir = annotdirpath @ ''/'' @ sample;
          tsvpath = sampledir @ ''/'' @ annotyp @ ''.txt'';
          indivID = sample2indivID sample;
          tissue = sample2tissue sample in
      case na_values of
        NaList l \<Rightarrow> Inl AttributeError
      | NaDict d \<Rightarrow>
          (let na_val = (case map_of d annotyp of Some v \<Rightarrow> v | None \<Rightarrow> []) in
           case (case read_TXT_per_annotation read_csv tsvpath indivID tissue None na_val
                         simplecolumns of
                   Inl e \<Rightarrow> Inl e
                 | Inr annot \<Rightarrow> annotation_duplicates it annot '':'') of
             Inl e \<Rightarrow> (if e = ValueError then Inr None else Inl e)
           | Inr annot \<Rightarrow> Inr (Some annot)))"

definition do_annotyp ::
  "(string \<Rightarrow> string list \<Rightarrow> error + (nat, string) frame)
     \<Rightarrow> (variant_key list \<Rightarrow> variant_key list) \<Rightarrow> string \<Rightarrow> na_spec \<Rightarrow> bool
     \<Rightarrow> string list \<Rightarrow> string \<Rightarrow> error + (variant_key, label) frame" where
  "do_annotyp read_csv it annotdirpath na_values simplecolumns samples annotyp =
     (case map_err (\<lambda>s. get_annot read_csv it annotdirpath na_values simplecolumns s annotyp)
             samples of
        Inl e \<Rightarrow> Inl e
      | Inr l \<Rightarrow> concat_rows l)"

text \<open>
  \<^verbatim>\<open>pd.concat(frames, axis=1)\<close>: frames with one and the same index are put side by
  side. Otherwise the index is the union of the indexes, in the order \<open>un\<close>, every
  frame is reindexed to it, and a frame with a repeated row label cannot be aligned.
\<close>

definition concat_cols ::
  "('k list \<Rightarrow> 'k list) \<Rightarrow> ('k, 'c) frame list \<Rightarrow> error + ('k, 'c) frame" where
  "concat_cols un fs =
     (if fs = [] then Inl ValueError
      else if list_all (\<lambda>df. index df = index (hd fs)) fs
      then Inr (Frame (index (hd fs)) (concat (map cols fs)))
      else if list_ex (\<lambda>df. \<not> distinct (index df)) fs then Inl InvalidIndexError
      else (let idx = un (concat (map index fs)) in
            case map_err (\<lambda>df. reindex_rows df idx) fs of
              Inl e \<Rightarrow> Inl e
            | Inr gs \<Rightarrow> Inr (Frame idx (concat (map cols gs)))))"

text \<open>
  \<^verbatim>\<open>get_multi_annotations\<close>. \<open>read_vcflist path\<close> is the index of the sample manifest
  (or the exception reading it raises); \<open>it\<close> and \<open>un\<close> are the orders of the set of
  row labels in the Duplicate Resolver and of the union of the indexes.
\<close>

definition get_multi_annotations ::
  "(string \<Rightarrow> error + string list)
     \<Rightarrow> (string \<Rightarrow> string list \<Rightarrow> error + (nat, string) frame)
     \<Rightarrow> (variant_key list \<Rightarrow> variant_key list) \<Rightarrow> (variant_key list \<Rightarrow> variant_key list)
     \<Rightarrow> string list \<Rightarrow> string \<Rightarrow> string \<Rightarrow> na_spec \<Rightarrow> bool
     \<Rightarrow> error + (variant_key, label) frame" where
  "get_multi_annotations read_vcflist read_csv it un annotlist vcflistpath annotdirpath
       na_values simplecolumns =
     (case read_vcflist vcflistpath of
        Inl e \<Rightarrow> Inl e
      | Inr samples \<Rightarrow>
          (case map_err (do_annotyp read_csv it annotdirpath na_values simplecolumns samples)
                  annotlist of
             Inl e \<Rightarrow> Inl e
           | Inr fs \<Rightarrow> concat_cols un fs))"

text \<open>Every column of a frame has one cell per row.\<close>

definition lengths_ok :: "('k, 'c) frame \<Rightarrow> bool" where
  "lengths_ok df = list_all (\<lambda>(l, c). length (cells c) = length (index df)) (cols df)"

text \<open>
  A frame is well formed when its column labels are distinct and every column has one
  cell per row. \<^verbatim>\<open>pd.read_csv\<close> returns such frames (it renames repeated
  headers).
\<close>

definition wf_frame :: "('k, 'c) frame \<Rightarrow> bool" where
  "wf_frame df = (distinct (labels df) \<and> lengths_ok df)"

text \<open>
  An example: one sample and two sources. The file of the first source holds two
  variants; the file of the second is absent, has only a header line, or holds one
  variant of another sample's position.
\<close>

definition sift_example :: "(nat, string) frame" where
  "sift_example = Frame [0]
     [(''Variation ID'', Column Object [Str ''chr1:12345:A/G:1'']),
      (''Score'', Column Float64 [Num 3])]"

definition header_only_example :: "(nat, string) frame" where
  "header_only_example = Frame []
     [(''Variation ID'', Column Object []), (''Score'', Column Object [])]"

definition example_files ::
  "error + (nat, string) frame \<Rightarrow> string \<Rightarrow> string list \<Rightarrow> error + (nat, string) frame" where
  "example_files sift path na =
     (if path = ''/annot/MSSM_1_NeuN_pl/near_gens.txt'' then Inr near_gens_example
      else if path = ''/annot/MSSM_1_NeuN_pl/sift.txt'' then sift
      else if path = ''/annot/PITT_2_muscle/near_gens.txt'' then Inl ValueError
      else if path = ''/annot/PITT_2_muscle/sift.txt'' then Inr sift_example
      else Inl FileNotFoundError)"

definition no_id_example :: "(nat, string) frame" where
  "no_id_example = Frame [0] [(''Score'', Column Float64 [Num 3])]"

definition example_samples :: "string list" where
  "example_samples = [''MSSM_1_NeuN_pl'', ''PITT_2_muscle'']"

definition near_gens_table :: "(variant_key, label) frame" where
  "near_gens_table = Frame
     [VariantKey ''CMC_MSSM_1'' ''NeuN_pl'' ''1'' 12345 ''A/G'',
      VariantKey ''CMC_MSSM_1'' ''NeuN_pl'' ''X'' 678 ''C/T'']
     [(Simple ''near_gens_Overlapped Gene'', Column Object [Str ''BRCA1'', Str ''None'']),
      (Simple ''near_gens_Distance'', Column Float64 [Num 7, NaN])]"

definition joined_example :: "(variant_key, label) frame" where
  "joined_example = Frame
     [VariantKey ''CMC_MSSM_1'' ''NeuN_pl'' ''1'' 12345 ''A/G'',
      VariantKey ''CMC_MSSM_1'' ''NeuN_pl'' ''X'' 678 ''C/T'',
      VariantKey ''CMC_PITT_2'' ''muscle'' ''1'' 12345 ''A/G'']
     [(Simple ''near_gens_Overlapped Gene'', Column Object [Str ''BRCA1'', Str ''None'', NaN]),
      (Simple ''near_gens_Distance'', Column Float64 [Num 7, NaN, NaN]),
      (Simple ''sift_Score'', Column Float64 [NaN, NaN, Num 3])]"
section \<open>Facts about the Categorical Regularizer\<close>

lemma map_err_Inr:
  "map_err f xs = Inr ys \<Longrightarrow> length ys = length xs \<and> (\<forall>i<length xs. f (xs ! i) = Inr (ys ! i))"
proof (induction xs arbitrary: ys)
  case Nil
  then show ?case by simp
next
  case (Cons x xs)
  then obtain y ys' where y: "f x = Inr y" and ys': "map_err f xs = Inr ys'" and eq: "ys = y # ys'"
    by (auto split: sum.splits)
  from Cons.IH[OF ys'] y eq show ?case
    by (auto simp: nth_Cons split: nat.splits)
qed

lemma map_of_replace_same:
  "c \<in> fst ` set xs \<Longrightarrow> map_of (map (\<lambda>(l, y). if l = c then (l, x) else (l, y)) xs) c = Some x"
  by (induction xs) auto

lemma map_of_replace_other:
  "c' \<noteq> c \<Longrightarrow> map_of (map (\<lambda>(l, y). if l = c then (l, x) else (l, y)) xs) c' = map_of xs c'"
  by (induction xs) auto

lemma map_fst_spread: "map fst (spread c x n i xs) = map fst xs"
  by (induction xs arbitrary: i) auto

lemma map_of_spread_other: "c' \<noteq> c \<Longrightarrow> map_of (spread c x n i xs) c' = map_of xs c'"
  by (induction xs arbitrary: i) auto

lemma count_label_distinct:
  "distinct xs \<Longrightarrow> length (filter (\<lambda>l. l = c) xs) = (if c \<in> set xs then 1 else 0)"
  by (induction xs) auto

lemma count_label_0: "filter (\<lambda>l. l = c) xs = [] \<longleftrightarrow> c \<notin> set xs"
  by (auto simp: filter_empty_conv)

text \<open>
  Outside the element-by-element case, an assignment overwrites every column with the
  label, or appends a new column.
\<close>

lemma setitem_plain:
  assumes "\<not> (1 < length (filter (\<lambda>l. l = c) (labels df))
            \<and> length (cells x) = length (filter (\<lambda>l. l = c) (labels df)))"
  shows "setitem df c x =
     (if c \<in> set (labels df)
      then Frame (index df) (map (\<lambda>(l, y). if l = c then (l, x) else (l, y)) (cols df))
      else Frame (index df) (cols df @ [(c, x)]))"
  using assms by (auto simp: setitem_def Let_def count_label_0)

lemma setitem_distinct:
  assumes "distinct (labels df)"
  shows "setitem df c x =
     (if c \<in> set (labels df)
      then Frame (index df) (map (\<lambda>(l, y). if l = c then (l, x) else (l, y)) (cols df))
      else Frame (index df) (cols df @ [(c, x)]))"
  by (rule setitem_plain) (simp add: count_label_distinct[OF assms])

lemma labels_Frame: "labels (Frame i cs) = map fst cs"
  by (simp add: labels_def)

lemma map_fst_replace:
  "map (fst \<circ> (\<lambda>(l, y). if l = c then (l, x) else (l, y))) xs = map fst xs"
  by (induction xs) auto

lemma labels_setitem:
  "labels (setitem df c x) = labels df @ (if c \<in> set (labels df) then [] else [c])"
proof -
  have l: "map fst (cols df) = labels df" by (simp add: labels_def)
  show ?thesis
    by (simp add: setitem_def Let_def count_label_0 labels_Frame map_fst_spread
        map_fst_replace l)
qed

lemma distinct_labels_setitem:
  "distinct (labels df) \<Longrightarrow> distinct (labels (setitem df c x))"
  by (simp add: labels_setitem)

lemma getitem_setitem_same:
  assumes "distinct (labels df)"
  shows "getitem (setitem df c x) c = Inr x"
proof (cases "c \<in> set (labels df)")
  case True
  then show ?thesis
    by (simp add: setitem_distinct[OF assms] getitem_def labels_def map_of_replace_same)
next
  case False
  then have "map_of (cols df) c = None" by (simp add: labels_def map_of_eq_None_iff)
  with False show ?thesis
    by (simp add: setitem_distinct[OF assms] getitem_def map_add_def)
qed

lemma getitem_setitem_other:
  "c' \<noteq> c \<Longrightarrow> getitem (setitem df c x) c' = getitem df c'"
  by (auto simp: getitem_def setitem_def Let_def labels_def map_of_replace_other
      map_of_spread_other map_add_def split: option.splits)

lemma getitem_Inr_labels: "getitem df c = Inr s \<Longrightarrow> c \<in> set (labels df)"
  by (auto simp: getitem_def labels_def split: option.splits dest: map_of_SomeD intro: rev_image_eqI)

lemma index_setitem: "index (setitem df c x) = index df"
  by (simp add: setitem_def Let_def)

lemma regularize_col_other:
  assumes "regularize_col nf entry v1 = Inr v2" "c \<noteq> fst entry"
  shows "getitem v2 c = getitem v1 c"
  using assms
  by (auto simp: regularize_col_def Let_def getitem_setitem_other split: sum.splits)

lemma find_in_set: "find P xs = Some x \<Longrightarrow> x \<in> set xs"
  by (induction xs) (auto split: if_splits)

lemma regularize_col_cell:
  assumes r: "regularize_col nf (col, cats) v1 = Inr v2"
    and s: "getitem v1 col = Inr s"
    and i: "i < length (cells s)" and raw: "cells s ! i = Str raw"
    and d: "distinct (labels v1)"
  shows "\<exists>s'. getitem v2 col = Inr s' \<and> cells s' ! i = regularized (cats @ [''other'']) nf raw"
proof -
  let ?C = "cats @ [''other'']"
  from r s obtain s1 s2 s3 where
    s1: "map_err (helper ?C (dtype s)) (cells s) = Inr s1"
    and s2: "Categorical_of s1 ?C = Inr s2"
    and s3: "fillna s2 (Str nf) = Inr s3"
    and v2: "v2 = setitem v1 col s3"
    by (auto simp: regularize_col_def Let_def split: sum.splits)
  from map_err_Inr[OF s1] i have len: "length s1 = length (cells s)"
    and h: "helper ?C (dtype s) (cells s ! i) = Inr (s1 ! i)" by auto
  from s2 have s2eq: "s2 = Column (Categorical (map Str ?C) True)
      (map (\<lambda>v. if v \<in> set (map Str ?C) then v else NaN) s1)"
    by (auto simp: Categorical_of_def split: if_splits)
  from s3 s2eq have nf: "Str nf \<in> set (map Str ?C)"
    and s3eq: "cells s3 = map (\<lambda>x. if x = NaN then Str nf else x) (cells s2)"
    by (auto simp: fillna_def split: if_splits)
  have g: "getitem v2 col = Inr s3"
    using v2 d by (simp add: getitem_setitem_same)
  have "cells s3 ! i = regularized ?C nf raw"
  proof (cases "find (\<lambda>cat. cat \<in> set (split_from '':'' [] raw)) ?C")
    case None
    with h raw have "s1 ! i = Str raw" by (simp add: helper_def)
    with None len i s3eq s2eq show ?thesis
      by (auto simp: regularized_def)
  next
    case (Some cat)
    with h raw have e: "s1 ! i = Str cat" by (simp add: helper_def)
    from find_in_set[OF Some] have "cat \<in> set ?C" .
    with e Some len i s3eq s2eq show ?thesis
      by (auto simp: regularized_def)
  qed
  with g show ?thesis by blast
qed

lemma fold_regularize_other:
  "fold_err (regularize_col nf) d v = Inr v' \<Longrightarrow> c \<notin> fst ` set d \<Longrightarrow> getitem v' c = getitem v c"
proof (induction d arbitrary: v)
  case Nil
  then show ?case by simp
next
  case (Cons e d)
  then obtain v1 where 1: "regularize_col nf e v = Inr v1" and 2: "fold_err (regularize_col nf) d v1 = Inr v'"
    by (auto split: sum.splits)
  from Cons.prems(2) have "c \<noteq> fst e" "c \<notin> fst ` set d" by auto
  with Cons.IH[OF 2] regularize_col_other[OF 1] show ?case by simp
qed

lemma regularize_col_labels:
  assumes "regularize_col nf entry v1 = Inr v2"
  shows "labels v2 = labels v1"
proof -
  from assms obtain s s3 where s: "getitem v1 (fst entry) = Inr s"
    and v2: "v2 = setitem v1 (fst entry) s3"
    by (auto simp: regularize_col_def Let_def split: sum.splits)
  from getitem_Inr_labels[OF s] v2 show ?thesis by (simp add: labels_setitem)
qed

lemma fold_regularize_entry:
  "distinct (map fst d) \<Longrightarrow> (col, cats) \<in> set d \<Longrightarrow> fold_err (regularize_col nf) d v = Inr v' \<Longrightarrow>
   distinct (labels v) \<Longrightarrow>
   \<exists>v1 v2. getitem v1 col = getitem v col \<and> distinct (labels v1)
      \<and> regularize_col nf (col, cats) v1 = Inr v2
      \<and> getitem v' col = getitem (v2 :: ('k, string) frame) col"
  for v :: "('k, string) frame"
proof (induction d arbitrary: v)
  case Nil
  then show ?case by simp
next
  case (Cons e d)
  from Cons.prems(3) obtain w where 1: "regularize_col nf e v = Inr w"
    and 2: "fold_err (regularize_col nf) d w = Inr v'"
    by (auto split: sum.splits)
  show ?case
  proof (cases "e = (col, cats)")
    case True
    with Cons.prems(1) have "col \<notin> fst ` set d" by auto
    from fold_regularize_other[OF 2 this] 1 True Cons.prems(4)
    have "getitem v col = getitem v col \<and> distinct (labels v)
        \<and> regularize_col nf (col, cats) v = Inr w
        \<and> getitem v' col = getitem w col" by simp
    then show ?thesis by blast
  next
    case False
    with Cons.prems have in_d: "(col, cats) \<in> set d" and dd: "distinct (map fst d)" by auto
    with Cons.prems(1) have "fst e \<noteq> col" by (auto simp: image_iff)
    with regularize_col_other[OF 1] have g: "getitem w col = getitem v col" by auto
    from regularize_col_labels[OF 1] Cons.prems(4) have dw: "distinct (labels w)" by simp
    from Cons.IH[OF dd in_d 2 dw] g show ?thesis by auto
  qed
qed

lemma regularize_cell:
  fixes annot :: "('k, string) frame"
  assumes "regularize_categ_cols colsdict annot calls nafillval = Inr val"
    and "distinct (map fst colsdict)" and "(col, cats) \<in> set colsdict"
    and "getitem annot col = Inr s" and "i < length (cells s)" and "cells s ! i = Str raw"
    and "distinct (labels annot)"
  shows "\<exists>s'. getitem val col = Inr s' \<and> cells s' ! i = regularized (cats @ [''other'']) nafillval raw"
proof -
  from fold_regularize_entry[OF assms(2,3) assms(1)[unfolded regularize_categ_cols_def] assms(7)]
  obtain v1 v2 :: "('k, string) frame" where a: "getitem v1 col = getitem annot col"
    and d: "distinct (labels v1)"
    and b: "regularize_col nafillval (col, cats) v1 = Inr v2"
    and c: "getitem val col = getitem v2 col" by blast
  from a assms(4) have "getitem v1 col = Inr s" by simp
  from regularize_col_cell[OF b this assms(5,6) d] c show ?thesis by simp
qed

lemma find_append_single:
  "find P (xs @ [y]) = (case find P xs of Some x \<Rightarrow> Some x | None \<Rightarrow> if P y then Some y else None)"
  by (induction xs) auto

text \<open>
  C4. In the Categorical Regularizer, on a table with distinct column labels, for a
  column named in the Category Specification and a text cell at least one of whose colon-split tokens is a listed category, the
  output cell is the earliest category of the ordered list that occurs among the
  cell's tokens.
\<close>

theorem regularize_highest_priority:
  fixes annot :: "('k, string) frame"
  assumes "regularize_categ_cols colsdict annot calls nafillval = Inr val"
    and "distinct (map fst colsdict)" and "(col, cats) \<in> set colsdict"
    and "getitem annot col = Inr s" and "i < length (cells s)" and "cells s ! i = Str raw"
    and "\<exists>c \<in> set cats. c \<in> set (split_from '':'' [] raw)"
    and "distinct (labels annot)"
  shows "\<exists>s' j. getitem val col = Inr s' \<and> j < length cats
           \<and> cells s' ! i = Str (cats ! j)
           \<and> cats ! j \<in> set (split_from '':'' [] raw)
           \<and> (\<forall>k<j. cats ! k \<notin> set (split_from '':'' [] raw))"
proof -
  let ?P = "\<lambda>cat. cat \<in> set (split_from '':'' [] raw)"
  from regularize_cell[OF assms(1-6) assms(8)] obtain s' where
    g: "getitem val col = Inr s'"
    and c: "cells s' ! i = regularized (cats @ [''other'']) nafillval raw" by blast
  from assms(7) have "find ?P cats \<noteq> None" by (auto simp: find_None_iff)
  then obtain cat where f: "find ?P cats = Some cat" by auto
  then obtain j where j: "j < length cats" "?P (cats ! j)" "cat = cats ! j"
    "\<forall>k<j. \<not> ?P (cats ! k)"
    by (auto simp: find_Some_iff)
  from f c have "cells s' ! i = Str cat"
    by (simp add: regularized_def find_append_single)
  with g j show ?thesis by blast
qed

theorem regularize_highest_priority_witness:
  "regularize_categ_cols [(''g'', [''A'', ''B'', ''C''])]
      (Frame [0::nat, 1] [(''g'', Column Object [Str ''B:A'', NaN])])
      (Frame [0::nat] ([] :: (string \<times> column) list)) ''other''
    = Inr (Frame [0, 1] [(''g'',
        Column (Categorical [Str ''A'', Str ''B'', Str ''C'', Str ''other''] True)
          [Str ''A'', Str ''other''])])
   \<and> (\<exists>s' j. getitem (Frame [0::nat, 1] [(''g'',
            Column (Categorical [Str ''A'', Str ''B'', Str ''C'', Str ''other''] True)
              [Str ''A'', Str ''other''])]) ''g'' = Inr s'
         \<and> j < length [''A'', ''B'', ''C'']
         \<and> cells s' ! 0 = Str ([''A'', ''B'', ''C''] ! j)
         \<and> [''A'', ''B'', ''C''] ! j \<in> set (split_from '':'' [] ''B:A'')
         \<and> (\<forall>k<j. [''A'', ''B'', ''C''] ! k \<notin> set (split_from '':'' [] ''B:A'')))"
proof -
  have run: "regularize_categ_cols [(''g'', [''A'', ''B'', ''C''])]
      (Frame [0::nat, 1] [(''g'', Column Object [Str ''B:A'', NaN])])
      (Frame [0::nat] ([] :: (string \<times> column) list)) ''other''
    = Inr (Frame [0, 1] [(''g'',
        Column (Categorical [Str ''A'', Str ''B'', Str ''C'', Str ''other''] True)
          [Str ''A'', Str ''other''])])"
    by (simp add: regularize_categ_cols_def regularize_col_def getitem_def helper_def
        Categorical_of_def fillna_def setitem_def labels_def Let_def)
  have "\<exists>c \<in> set [''A'', ''B'', ''C'']. c \<in> set (split_from '':'' [] ''B:A'')"
    by simp
  from regularize_highest_priority[OF run _ _ _ _ _ this, of "''g''" _ 0]
  show ?thesis using run by (simp add: getitem_def labels_def)
qed

text \<open>
  C2 (amended). On a table with distinct column labels, whenever the regularizer
  returns: for a column named in the Category Specification and a text cell none
  of whose colon-split tokens is a listed category, the helper returns the raw value,
  but the conversion to the ordered categorical type makes every value that is not a
  category missing, and the final fill replaces it: the output cell is the fallback
  label \<open>nafillval\<close>, unless \<open>other\<close> is one of the tokens (then it is \<open>other\<close>) or
  the raw value as a whole is a listed category (then it is kept).
\<close>

theorem regularize_unmatched_cell:
  fixes annot :: "('k, string) frame"
  assumes "regularize_categ_cols colsdict annot calls nafillval = Inr val"
    and "distinct (map fst colsdict)" and "(col, cats) \<in> set colsdict"
    and "getitem annot col = Inr s" and "i < length (cells s)" and "cells s ! i = Str raw"
    and "\<forall>c \<in> set cats. c \<notin> set (split_from '':'' [] raw)"
    and "distinct (labels annot)"
  shows "\<exists>s'. getitem val col = Inr s'
           \<and> cells s' ! i =
               (if ''other'' \<in> set (split_from '':'' [] raw) then Str ''other''
                else if raw \<in> set cats then Str raw
                else Str nafillval)"
proof -
  let ?P = "\<lambda>cat. cat \<in> set (split_from '':'' [] raw)"
  from regularize_cell[OF assms(1-6) assms(8)] obtain s' where
    g: "getitem val col = Inr s'"
    and c: "cells s' ! i = regularized (cats @ [''other'']) nafillval raw" by blast
  from assms(7) have f: "find ?P cats = None" by (auto simp: find_None_iff)
  have o: "raw = ''other'' \<Longrightarrow> ?P ''other''" by simp
  from f c o have "cells s' ! i =
               (if ''other'' \<in> set (split_from '':'' [] raw) then Str ''other''
                else if raw \<in> set cats then Str raw
                else Str nafillval)"
    by (auto simp: regularized_def find_append_single)
  with g show ?thesis by blast
qed

theorem regularize_unmatched_cell_witness:
  "\<exists>s'. getitem (Frame [0::nat] [(''g'',
            Column (Categorical [Str ''A'', Str ''B'', Str ''C'', Str ''other''] True)
              [Str ''other''])]) ''g'' = Inr s'
         \<and> cells s' ! 0 = Str ''other''"
proof -
  have run: "regularize_categ_cols [(''g'', [''A'', ''B'', ''C''])]
      (Frame [0::nat] [(''g'', Column Object [Str ''zzz''])])
      (Frame [0::nat] ([] :: (string \<times> column) list)) ''other''
    = Inr (Frame [0] [(''g'',
        Column (Categorical [Str ''A'', Str ''B'', Str ''C'', Str ''other''] True)
          [Str ''other''])])"
    by (simp add: regularize_categ_cols_def regularize_col_def getitem_def helper_def
        Categorical_of_def fillna_def setitem_def labels_def Let_def)
  have "\<forall>c \<in> set [''A'', ''B'', ''C'']. c \<notin> set (split_from '':'' [] ''zzz'')"
    by simp
  from regularize_unmatched_cell[OF run _ _ _ _ _ this, of "''g''" _ 0]
  show ?thesis by (simp add: getitem_def labels_def)
qed

text \<open>
  C2 as stated fails: with categories A, B, C and the cell \<open>zzz\<close>, the output cell is
  \<open>other\<close>, not \<open>zzz\<close>.
\<close>

theorem regularize_unmatched_counterexample:
  "regularize_categ_cols [(''g'', [''A'', ''B'', ''C''])]
      (Frame [0::nat] [(''g'', Column Object [Str ''zzz''])])
      (Frame [0::nat] ([] :: (string \<times> column) list)) ''other''
    = Inr (Frame [0] [(''g'',
        Column (Categorical [Str ''A'', Str ''B'', Str ''C'', Str ''other''] True)
          [Str ''other''])])"
  by (simp add: regularize_categ_cols_def regularize_col_def getitem_def helper_def
      Categorical_of_def fillna_def setitem_def labels_def Let_def)

lemma map_err_returns:
  "(\<And>x. x \<in> set xs \<Longrightarrow> \<exists>y. f x = Inr y) \<Longrightarrow> \<exists>ys. map_err f xs = Inr ys"
proof (induction xs)
  case Nil
  then show ?case by simp
next
  case (Cons x xs)
  then obtain y ys where "f x = Inr y" "map_err f xs = Inr ys" by (meson list.set_intros)
  then show ?case by simp
qed

lemma helper_returns:
  "dt \<noteq> Float64 \<Longrightarrow> x = NaN \<or> is_text x \<Longrightarrow> \<exists>y. helper C dt x = Inr y"
  by (cases x) (auto simp: helper_def Let_def split: option.splits)

lemma regularize_col_returns:
  assumes "getitem v col = Inr s" "regularizable s"
    and "distinct (cats @ [''other''])" "nafillval \<in> set (cats @ [''other''])"
  shows "\<exists>v'. regularize_col nafillval (col, cats) v = Inr v'"
proof -
  have "\<exists>y. helper (cats @ [''other'']) (dtype s) x = Inr y" if "x \<in> set (cells s)" for x
    using that assms(2) by (intro helper_returns) (auto simp: regularizable_def list_all_iff)
  from map_err_returns[of "cells s" "helper (cats @ [''other'']) (dtype s)", OF this]
  obtain s1 where s1: "map_err (helper (cats @ [''other'']) (dtype s)) (cells s) = Inr s1"
    by blast
  with assms(1,3,4) show ?thesis
    by (auto simp: regularize_col_def Let_def Categorical_of_def fillna_def)
qed

text \<open>
  The Categorical Regularizer returns a table whenever the dictionary's keys are
  distinct columns of the table that hold text or missing cells, every category list
  is duplicate-free and without \<open>other\<close>, and the fallback label is \<open>other\<close> or a
  listed category of every column.
\<close>

lemma regularize_categ_cols_returns:
  fixes annot :: "('k, string) frame"
  assumes "distinct (map fst colsdict)"
    and "\<forall>(col, cats) \<in> set colsdict.
           distinct (cats @ [''other'']) \<and> nafillval \<in> set (cats @ [''other''])
           \<and> (\<exists>s. getitem annot col = Inr s \<and> regularizable s)"
  shows "\<exists>val. regularize_categ_cols colsdict annot calls nafillval = Inr val"
  unfolding regularize_categ_cols_def using assms
proof (induction colsdict arbitrary: annot)
  case Nil
  then show ?case by simp
next
  case (Cons e d)
  obtain col cats where e: "e = (col, cats)" by (cases e) auto
  from Cons.prems(2) e obtain s where s: "getitem annot col = Inr s" "regularizable s"
    and c: "distinct (cats @ [''other''])" "nafillval \<in> set (cats @ [''other''])"
    by auto
  from regularize_col_returns[OF s c] obtain w :: "('k, string) frame" where
    w: "regularize_col nafillval (col, cats) annot = Inr w" by blast
  have "\<forall>(col', cats') \<in> set d.
           distinct (cats' @ [''other'']) \<and> nafillval \<in> set (cats' @ [''other''])
           \<and> (\<exists>s. getitem w col' = Inr s \<and> regularizable s)"
  proof (clarify)
    fix col' cats' assume m: "(col', cats') \<in> set d"
    with Cons.prems(1) e have "col' \<noteq> col" by (auto simp: image_iff)
    with regularize_col_other[OF w, of col'] have "getitem w col' = getitem annot col'" by simp
    with Cons.prems(2) m show "distinct (cats' @ [''other'']) \<and> nafillval \<in> set (cats' @ [''other''])
           \<and> (\<exists>s. getitem w col' = Inr s \<and> regularizable s)" by auto
  qed
  moreover from Cons.prems(1) have "distinct (map fst d)" by simp
  ultimately obtain val where "fold_err (regularize_col nafillval) d w = Inr val"
    using Cons.IH by blast
  with w e show ?case by simp
qed

section \<open>Facts about the Set-Valued Vectorizer\<close>

lemma zip_take_length: "zip (take (length ys) xs) ys = zip xs ys"
proof (induction ys arbitrary: xs)
  case Nil
  then show ?case by simp
next
  case (Cons y ys)
  then show ?case by (cases xs) simp_all
qed

lemma labels_fold_setitem:
  "\<exists>new. labels (fold (\<lambda>col a. setitem a col (f col)) cs df) = labels df @ new"
proof (induction cs arbitrary: df)
  case Nil
  then show ?case by simp
next
  case (Cons c cs)
  from Cons.IH[of "setitem df c (f c)"] obtain new where
    "labels (fold (\<lambda>col a. setitem a col (f col)) cs (setitem df c (f c)))
       = labels (setitem df c (f c)) @ new" by blast
  then show ?case by (simp add: labels_setitem)
qed

text \<open>
  C10. Called with the default none-token argument, the multi-column vectorizer pairs
  the column list with the characters of \<open>None\<close>: the pairs are the first four columns
  with the sentinels \<open>N\<close>, \<open>o\<close>, \<open>n\<close>, \<open>e\<close>, there are at most four of them, and the
  columns after the fourth do not affect the result.
\<close>

theorem vectorize_multiple_default_nonestrl:
  "zip colnamel (py_iter default_nonestrl)
     = zip (take 4 colnamel) [''N'', ''o'', ''n'', ''e'']
   \<and> length (zip colnamel (py_iter default_nonestrl)) = min 4 (length colnamel)
   \<and> vectorize_multiple_setvalued it annot colnamel default_nonestrl sepstr
     = fold_err (\<lambda>(colname, nonestr) data. vectorize_setvalued it data colname nonestr sepstr)
         (zip (take 4 colnamel) [''N'', ''o'', ''n'', ''e'']) annot
   \<and> vectorize_multiple_setvalued it annot colnamel default_nonestrl sepstr
     = vectorize_multiple_setvalued it annot (take 4 colnamel) default_nonestrl sepstr"
proof -
  have p: "py_iter default_nonestrl = [''N'', ''o'', ''n'', ''e'']"
    by (simp add: default_nonestrl_def)
  have z: "zip (take 4 colnamel) [''N'', ''o'', ''n'', ''e'']
             = zip colnamel [''N'', ''o'', ''n'', ''e'']"
    using zip_take_length[of "[''N'', ''o'', ''n'', ''e'']" colnamel]
    by (simp add: eval_nat_numeral)
  show ?thesis
    unfolding vectorize_multiple_setvalued_def p z by (simp add: min_def)
qed

lemma vectorize_multiple_five_columns:
  "vectorize_multiple_setvalued it annot [c1, c2, c3, c4, c5] default_nonestrl sepstr =
     (case vectorize_setvalued it annot c1 ''N'' sepstr of Inl e \<Rightarrow> Inl e | Inr d1 \<Rightarrow>
       (case vectorize_setvalued it d1 c2 ''o'' sepstr of Inl e \<Rightarrow> Inl e | Inr d2 \<Rightarrow>
          (case vectorize_setvalued it d2 c3 ''n'' sepstr of Inl e \<Rightarrow> Inl e | Inr d3 \<Rightarrow>
             vectorize_setvalued it d3 c4 ''e'' sepstr)))"
  by (simp add: vectorize_multiple_setvalued_def default_nonestrl_def split: sum.splits)

lemma vectorize_setvalued_labels:
  assumes "vectorize_setvalued it annot colname nonestr sepstr = Inr out"
  shows "\<exists>new. labels out = labels annot @ new"
  using assms labels_fold_setitem
  by (auto simp: vectorize_setvalued_def Let_def split: sum.splits)

lemma distinct_labels_fold_setitem:
  "distinct (labels df) \<Longrightarrow> distinct (labels (fold (\<lambda>col a. setitem a col (f col)) cs df))"
  by (induction cs arbitrary: df) (simp_all add: distinct_labels_setitem)

lemma getitem_fold_setitem:
  "distinct (labels df) \<Longrightarrow> c \<in> set cs \<Longrightarrow>
     getitem (fold (\<lambda>col a. setitem a col (f col)) cs df) c = Inr (f c)"
proof (induction cs arbitrary: df rule: rev_induct)
  case Nil
  then show ?case by simp
next
  case (snoc c' cs)
  show ?case
  proof (cases "c = c'")
    case True
    with snoc.prems(1) show ?thesis
      by (simp add: getitem_setitem_same distinct_labels_fold_setitem)
  next
    case False
    with snoc show ?thesis by (simp add: getitem_setitem_other)
  qed
qed

text \<open>
  What the vectorizer writes, on a table with distinct column labels: the column made
  for the token \<open>t\<close> is named
  \<open>pre @ t\<close>, and its cell in a row says whether that \<^emph>\<open>name\<close> is one of the row's
  tokens. Without a prefix that is the token; with the prefix it is not.
\<close>

lemma vectorize_setvalued_cell:
  assumes ok: "set_iter_ok it"
    and dl: "distinct (labels annot)"
    and run: "vectorize_setvalued it annot colname nonestr sepstr = Inr out"
    and c: "getitem annot colname = Inr c"
    and ll: "map_err (\<lambda>y. case y of Str t \<Rightarrow> str_split t sepstr | _ \<Rightarrow> Inl AttributeError)
               (cells c) = Inr ll"
    and t: "t \<in> set (concat ll)" "t \<noteq> nonestr"
    and pre: "pre = (if \<exists>y \<in> set (concat ll) - {nonestr}. y \<in> set (labels annot)
                     then colname @ ''_'' else [])"
  shows "getitem out (pre @ t) = Inr (Column Boolean (map (\<lambda>y. Flag (pre @ t \<in> set y)) ll))"
proof -
  let ?s = "filter (\<lambda>y. y \<noteq> nonestr) (it (concat ll))"
  from ok have s: "set ?s = set (concat ll) - {nonestr}"
    by (auto simp: set_iter_ok_def)
  then have pre': "pre = (if \<exists>y \<in> set ?s. y \<in> set (labels annot) then colname @ ''_'' else [])"
    using pre by simp
  from run c ll have out: "out = fold (\<lambda>col a. setitem a col
        (Column Boolean (map (\<lambda>y. Flag (col \<in> set y)) ll))) (map (\<lambda>y. pre @ y) ?s) annot"
    unfolding vectorize_setvalued_def Let_def pre' by simp
  from t s have "pre @ t \<in> set (map (\<lambda>y. pre @ y) ?s)" by auto
  from getitem_fold_setitem[OF dl this] out show ?thesis by simp
qed

text \<open>
  C7. The new column of a token is meant to be True in a row exactly when the token is
  one of the row's tokens. That holds when the columns carry the bare token as their
  name. When a token collides with an existing column and the names are prefixed, the
  code tests the prefixed name against the row's tokens (\<^verbatim>\<open>col in y\<close>), so the new
  columns are False in every row: for the values \<open>a:b\<close>, \<open>b\<close>, \<open>None\<close> of column
  \<open>x\<close> beside a column named \<open>a\<close>, the columns \<open>x_a\<close> and \<open>x_b\<close> are False
  throughout, not (True, True), (False, True), (False, False).
\<close>

theorem vectorize_namespaced_all_false:
  "vectorize_setvalued remdups
     (Frame [0::nat, 1, 2]
        [(''x'', Column Object [Str ''a:b'', Str ''b'', Str ''None'']),
         (''a'', Column Int64 [Num 1, Num 2, Num 3])])
     ''x'' ''None'' '':''
   = Inr (Frame [0, 1, 2]
        [(''x'', Column Object [Str ''a:b'', Str ''b'', Str ''None'']),
         (''a'', Column Int64 [Num 1, Num 2, Num 3]),
         (''x_a'', Column Boolean [Flag False, Flag False, Flag False]),
         (''x_b'', Column Boolean [Flag False, Flag False, Flag False])])"
  by (simp add: vectorize_setvalued_def getitem_def str_split_def setitem_def labels_def Let_def)

text \<open>
  C8. The new indicator columns are meant to stand immediately before the vectorized
  column. The code computes the list of column names in that order and never applies
  it: each new column is appended after the last column. With columns \<open>x\<close>, \<open>y\<close>
  and \<open>x\<close> vectorized, the output columns are \<open>x\<close>, \<open>y\<close>, \<open>a\<close>, \<open>b\<close>, not
  \<open>a\<close>, \<open>b\<close>, \<open>x\<close>, \<open>y\<close>. The columns that were there keep their order and
  values.
\<close>

theorem vectorize_new_columns_appended:
  "vectorize_setvalued remdups
     (Frame [0::nat, 1, 2]
        [(''x'', Column Object [Str ''a:b'', Str ''b'', Str ''None'']),
         (''y'', Column Int64 [Num 1, Num 2, Num 3])])
     ''x'' ''None'' '':''
   = Inr (Frame [0, 1, 2]
        [(''x'', Column Object [Str ''a:b'', Str ''b'', Str ''None'']),
         (''y'', Column Int64 [Num 1, Num 2, Num 3]),
         (''a'', Column Boolean [Flag True, Flag False, Flag False]),
         (''b'', Column Boolean [Flag True, Flag True, Flag False])])"
  by (simp add: vectorize_setvalued_def getitem_def str_split_def setitem_def labels_def Let_def)

section \<open>Facts about the Duplicate Resolver\<close>

lemma str_join_text:
  "list_all is_text cs \<Longrightarrow> str_join sep cs = Inr (join_strs sep (map text_of cs))"
  by (induction sep cs rule: str_join.induct) simp_all

lemma set_positions: "set (positions var idx) = {p. p < length idx \<and> idx ! p = var}"
  by (auto simp: positions_def)

lemma positions_nonempty: "var \<in> set idx \<Longrightarrow> positions var idx \<noteq> []"
proof -
  assume "var \<in> set idx"
  then obtain p where "p < length idx" "idx ! p = var" by (auto simp: in_set_conv_nth)
  then have "p \<in> set (positions var idx)" by (simp add: set_positions)
  then show ?thesis by auto
qed

lemma positions_distinct_one:
  assumes "distinct xs" "x \<in> set xs"
  shows "length (positions x xs) = 1"
proof -
  from assms(2) obtain i where i: "i < length xs" "xs ! i = x" by (auto simp: in_set_conv_nth)
  have "{p. p < length xs \<and> xs ! p = x} = {i}"
    using assms(1) i by (auto simp: nth_eq_iff_index_eq)
  moreover have "distinct (positions x xs)" by (simp add: positions_def)
  ultimately show ?thesis
    using set_positions[of x xs] by (metis distinct_card card_1_singleton_iff is_singletonI is_singleton_altdef)
qed

lemma index_take_rows: "index (take_rows ps df) = map (\<lambda>p. index df ! p) ps"
  by (simp add: take_rows_def)

lemma labels_take_rows: "labels (take_rows ps df) = labels df"
  by (auto simp: take_rows_def labels_def)

lemma cols_take_rows:
  "cols (take_rows ps df) = map (\<lambda>(l, c). (l, Column (dtype c) (map (\<lambda>p. cells c ! p) ps))) (cols df)"
  by (simp add: take_rows_def)

lemma getitem_take_rows:
  "map_of (cols df) col = Some c \<Longrightarrow>
   getitem (take_rows ps df) col = Inr (Column (dtype c) (map (\<lambda>p. cells c ! p) ps))"
  by (simp add: getitem_def cols_take_rows map_of_map)

lemma hd_positions:
  assumes "var \<in> set idx"
  shows "hd (positions var idx) < length idx \<and> idx ! hd (positions var idx) = var"
proof -
  from positions_nonempty[OF assms] have "hd (positions var idx) \<in> set (positions var idx)"
    by simp
  then show ?thesis by (simp add: set_positions)
qed

lemma do_var_single:
  assumes "var \<in> set (index annot)" "length (positions var (index annot)) = 1"
  shows "do_var annot sep var = Inr (resolved_row annot sep var)"
proof -
  from assms(2) obtain p where ps: "positions var (index annot) = [p]"
    by (cases "positions var (index annot)") auto
  with hd_positions[OF assms(1)] have p: "index annot ! p = var" by simp
  show ?thesis
    using ps p
    by (simp add: do_var_def loc_def take_rows_def resolved_row_def row_cell_def)
qed

lemma partial_row_empty:
  assumes "var \<in> set (index annot)"
  shows "take_rows [0] (loc annot var) = partial_row annot sep var {}"
proof -
  let ?ps = "positions var (index annot)"
  from positions_nonempty[OF assms] obtain p ps' where ps: "?ps = p # ps'"
    by (cases ?ps) auto
  with hd_positions[OF assms] have "index annot ! p = var" by simp
  then show ?thesis
    by (simp add: loc_def take_rows_def partial_row_def split_beta o_def ps)
qed

lemma partial_row_all:
  "set (labels annot) \<subseteq> S \<Longrightarrow> partial_row annot sep var S = resolved_row annot sep var"
  by (auto simp: partial_row_def resolved_row_def labels_def)

lemma labels_partial_row: "labels (partial_row annot sep var S) = labels annot"
  by (auto simp: partial_row_def labels_def)

lemma collapse_col_step:
  assumes d: "distinct (labels annot)"
    and col: "col \<in> set (labels annot)"
    and n: "1 < length (positions var (index annot))"
    and tx: "\<forall>(l, c) \<in> set (cols annot). dtype c = Object \<longrightarrow>
                (\<forall>p \<in> set (positions var (index annot)). is_text (cells c ! p))"
  shows "collapse_col sep (loc annot var) col (partial_row annot sep var S)
           = Inr (partial_row annot sep var (insert col S))"
proof -
  let ?ps = "positions var (index annot)"
  from col obtain c where c: "(col, c) \<in> set (cols annot)" by (auto simp: labels_def)
  with d have m: "map_of (cols annot) col = Some c" by (simp add: labels_def)
  have uniq: "\<And>c'. (col, c') \<in> set (cols annot) \<Longrightarrow> c' = c"
    using d m by (simp add: labels_def)
  have g: "getitem (loc annot var) col = Inr (Column (dtype c) (map (\<lambda>p. cells c ! p) ?ps))"
    unfolding loc_def by (rule getitem_take_rows[OF m])
  show ?thesis
  proof (cases "dtype c = Object")
    case False
    have "partial_row annot sep var (insert col S) = partial_row annot sep var S"
      unfolding partial_row_def using uniq False
      by (auto simp: row_cell_def Let_def)
    with g False show ?thesis by (simp add: collapse_col_def)
  next
    case True
    with tx c have "list_all is_text (map (\<lambda>p. cells c ! p) ?ps)"
      by (auto simp: list_all_iff)
    from str_join_text[OF this]
    have j: "str_join sep (map (\<lambda>p. cells c ! p) ?ps)
               = Inr (join_strs sep (map (\<lambda>p. text_of (cells c ! p)) ?ps))"
      by (simp add: o_def)
    have rc: "row_cell annot sep var c = Str (join_strs sep (map (\<lambda>p. text_of (cells c ! p)) ?ps))"
      using n True by (simp add: row_cell_def)
    let ?x = "Column Object [Str (join_strs sep (map (\<lambda>p. text_of (cells c ! p)) ?ps))]"
    have "col \<in> set (labels (partial_row annot sep var S))"
      and dp: "distinct (labels (partial_row annot sep var S))"
      using col d by (simp_all add: labels_partial_row)
    then have "setitem (partial_row annot sep var S) col ?x
          = Frame (index (partial_row annot sep var S))
              (map (\<lambda>(l, y). if l = col then (l, ?x) else (l, y))
                 (cols (partial_row annot sep var S)))"
      by (simp add: setitem_distinct)
    also have "\<dots> = partial_row annot sep var (insert col S)"
      unfolding partial_row_def using uniq True rc by auto
    finally have "setitem (partial_row annot sep var S) col ?x
          = partial_row annot sep var (insert col S)" .
    with g True j show ?thesis by (simp add: collapse_col_def)
  qed
qed

lemma collapse_fold:
  assumes d: "distinct (labels annot)"
    and n: "1 < length (positions var (index annot))"
    and tx: "\<forall>(l, c) \<in> set (cols annot). dtype c = Object \<longrightarrow>
                (\<forall>p \<in> set (positions var (index annot)). is_text (cells c ! p))"
  shows "set ls \<subseteq> set (labels annot) \<Longrightarrow>
         fold_err (collapse_col sep (loc annot var)) ls (partial_row annot sep var S)
           = Inr (partial_row annot sep var (S \<union> set ls))"
proof (induction ls arbitrary: S)
  case Nil
  then show ?case by simp
next
  case (Cons col ls)
  then have col: "col \<in> set (labels annot)" and ls: "set ls \<subseteq> set (labels annot)" by auto
  from collapse_col_step[OF d col n tx] Cons.IH[OF ls, of "insert col S"]
  show ?case by simp
qed

lemma do_var_multi:
  assumes d: "distinct (labels annot)"
    and v: "var \<in> set (index annot)"
    and n: "1 < length (positions var (index annot))"
    and tx: "\<forall>(l, c) \<in> set (cols annot). dtype c = Object \<longrightarrow>
                (\<forall>p \<in> set (positions var (index annot)). is_text (cells c ! p))"
  shows "do_var annot sep var = Inr (resolved_row annot sep var)"
proof -
  have len: "length (index (loc annot var)) = length (positions var (index annot))"
    by (simp add: loc_def index_take_rows)
  from collapse_fold[OF d n tx subset_refl, of sep "{}"]
  have "fold_err (collapse_col sep (loc annot var)) (labels annot) (partial_row annot sep var {})
           = Inr (resolved_row annot sep var)"
    by (simp add: partial_row_all)
  with n len show ?thesis
    by (simp add: do_var_def Let_def partial_row_empty[OF v, of sep])
qed

lemma text_in_duplicates_var:
  assumes t: "text_in_duplicates annot" and n: "1 < length (positions var (index annot))"
  shows "\<forall>(l, c) \<in> set (cols annot). dtype c = Object \<longrightarrow>
           (\<forall>p \<in> set (positions var (index annot)). is_text (cells c ! p))"
proof -
  have "is_text (cells c ! p)"
    if c: "(l, c) \<in> set (cols annot)" and o: "dtype c = Object"
      and p: "p \<in> set (positions var (index annot))" for l c p
  proof -
    from p have pl: "p < length (index annot)" and pv: "index annot ! p = var"
      by (simp_all add: set_positions)
    from t c o have "list_all (\<lambda>p. 1 < length (positions (index annot ! p) (index annot))
                      \<longrightarrow> is_text (cells c ! p)) [0..<length (index annot)]"
      by (auto simp: text_in_duplicates_def list_all_iff)
    with pl pv n show ?thesis by (auto simp: list_all_iff)
  qed
  then show ?thesis by blast
qed

lemma do_var_resolved:
  assumes "distinct (labels annot)" "text_in_duplicates annot" "var \<in> set (index annot)"
  shows "do_var annot sep var = Inr (resolved_row annot sep var)"
proof (cases "length (positions var (index annot)) = 1")
  case True
  with assms(3) show ?thesis by (rule do_var_single)
next
  case False
  with positions_nonempty[OF assms(3)] have n: "1 < length (positions var (index annot))"
    by (cases "positions var (index annot)") auto
  from do_var_multi[OF assms(1,3) n text_in_duplicates_var[OF assms(2) n]] show ?thesis .
qed

lemma map_err_all: "(\<And>x. x \<in> set xs \<Longrightarrow> f x = Inr (g x)) \<Longrightarrow> map_err f xs = Inr (map g xs)"
  by (induction xs) auto

lemma somes_map_Some: "somes (map Some l) = l"
  by (induction l) (auto simp: somes_def)

lemma common_dtype_same: "xs \<noteq> [] \<Longrightarrow> common_dtype (map (\<lambda>x. d) xs) False = d"
  by (cases xs) (auto simp: common_dtype_def list_all_iff)

lemma concat_rows_same_labels:
  assumes "l \<noteq> []" "\<And>df. df \<in> set l \<Longrightarrow> labels df = L"
  shows "concat_rows (map Some l) =
     Inr (Frame (concat (map index l))
             (map (\<lambda>j. (L ! j,
                     Column (common_dtype (map (\<lambda>df. dtype (snd (cols df ! j))) l) False)
                       (concat (map (\<lambda>df. cells (snd (cols df ! j))) l))))
                [0..<length L]))"
proof -
  from assms have "labels (hd l) = L" by simp
  moreover from assms(2) have "list_all (\<lambda>df. labels df = L) l" by (simp add: list_all_iff)
  ultimately show ?thesis
    unfolding concat_rows_def somes_map_Some Let_def using assms(1) by simp
qed

lemma labels_resolved_row: "labels (resolved_row annot sep var) = labels annot"
  by (auto simp: resolved_row_def labels_def)

text \<open>The resolver in closed form, on a frame that has a repeated row label.\<close>

lemma annotation_duplicates_closed_form:
  assumes ok: "set_iter_ok it" and d: "distinct (labels annot)"
    and t: "text_in_duplicates annot" and dup: "\<not> distinct (index annot)"
  shows "annotation_duplicates it annot sep =
           Inr (Frame (it (index annot))
                  (map (\<lambda>(l, c). (l, Column (dtype c)
                           (map (\<lambda>var. row_cell annot sep var c) (it (index annot)))))
                     (cols annot)))"
proof -
  let ?A = "it (index annot)"
  let ?l = "map (resolved_row annot sep) ?A"
  from ok have A: "set ?A = set (index annot)" by (simp add: set_iter_ok_def)
  from dup have "index annot \<noteq> []" by auto
  with A have ne: "?A \<noteq> []" by (metis set_empty)
  have m: "map_err (do_var annot sep) ?A = Inr ?l"
    by (rule map_err_all) (simp add: A do_var_resolved[OF d t])
  have c: "concat_rows (map Some ?l) =
     Inr (Frame (concat (map index ?l))
             (map (\<lambda>j. (labels annot ! j,
                     Column (common_dtype (map (\<lambda>df. dtype (snd (cols df ! j))) ?l) False)
                       (concat (map (\<lambda>df. cells (snd (cols df ! j))) ?l))))
                [0..<length (labels annot)]))"
    by (rule concat_rows_same_labels) (auto simp: ne labels_resolved_row)
  have i: "concat (map index ?l) = ?A"
    by (simp add: o_def resolved_row_def)
  have cs: "map (\<lambda>j. (labels annot ! j,
                     Column (common_dtype (map (\<lambda>df. dtype (snd (cols df ! j))) ?l) False)
                       (concat (map (\<lambda>df. cells (snd (cols df ! j))) ?l))))
                [0..<length (labels annot)]
        = map (\<lambda>(l, c). (l, Column (dtype c) (map (\<lambda>var. row_cell annot sep var c) ?A)))
            (cols annot)"
  proof (rule nth_equalityI)
    show "length (map (\<lambda>j. (labels annot ! j,
                     Column (common_dtype (map (\<lambda>df. dtype (snd (cols df ! j))) ?l) False)
                       (concat (map (\<lambda>df. cells (snd (cols df ! j))) ?l))))
                [0..<length (labels annot)])
        = length (map (\<lambda>(l, c). (l, Column (dtype c) (map (\<lambda>var. row_cell annot sep var c) ?A)))
            (cols annot))"
      by (simp add: labels_def)
  next
    fix j
    assume "j < length (map (\<lambda>j. (labels annot ! j,
                     Column (common_dtype (map (\<lambda>df. dtype (snd (cols df ! j))) ?l) False)
                       (concat (map (\<lambda>df. cells (snd (cols df ! j))) ?l))))
                [0..<length (labels annot)])"
    then have j: "j < length (cols annot)" by (simp add: labels_def)
    then show "map (\<lambda>j. (labels annot ! j,
                     Column (common_dtype (map (\<lambda>df. dtype (snd (cols df ! j))) ?l) False)
                       (concat (map (\<lambda>df. cells (snd (cols df ! j))) ?l))))
                [0..<length (labels annot)] ! j
        = map (\<lambda>(l, c). (l, Column (dtype c) (map (\<lambda>var. row_cell annot sep var c) ?A)))
            (cols annot) ! j"
      using ne
      by (simp add: labels_def resolved_row_def split_beta o_def common_dtype_same)
  qed
  from dup m c i cs show ?thesis
    by (simp add: annotation_duplicates_def)
qed

lemma positions_distinct_le:
  assumes "distinct idx"
  shows "length (positions var idx) \<le> 1"
proof (cases "var \<in> set idx")
  case True
  with assms show ?thesis by (simp add: positions_distinct_one)
next
  case False
  then have "positions var idx = []"
    by (auto simp: positions_def filter_empty_conv)
  then show ?thesis by simp
qed

text \<open>
  Where the resolver does what its docstring says. For a frame with distinct column
  labels in which every value of an object-typed column, in a row whose Variant Key is
  repeated, is text: for every key with more than one row the Duplicate Resolver
  returns a table with exactly one row for that key, in which each object-typed column
  holds the values of the key's rows, in their row order, joined by the separator, and
  every other column holds the value of the first of those rows; the column labels,
  their order and the dtypes are unchanged.
\<close>

lemma annotation_duplicates_collapses:
  assumes ok: "set_iter_ok it" and d: "distinct (labels annot)"
    and t: "text_in_duplicates annot"
    and n: "1 < length (positions var (index annot))"
  shows "\<exists>out. annotation_duplicates it annot sep = Inr out
      \<and> labels out = labels annot
      \<and> length (positions var (index out)) = 1
      \<and> (\<forall>(l, c) \<in> set (cols annot). \<exists>c'. getitem out l = Inr c' \<and> dtype c' = dtype c \<and>
            cells c' ! hd (positions var (index out)) =
              (if dtype c = Object
               then Str (join_strs sep
                      (map (\<lambda>p. text_of (cells c ! p)) (positions var (index annot))))
               else cells c ! hd (positions var (index annot))))"
proof -
  let ?A = "it (index annot)"
  let ?out = "Frame ?A (map (\<lambda>(l, c). (l, Column (dtype c)
                           (map (\<lambda>var. row_cell annot sep var c) ?A))) (cols annot))"
  from n positions_distinct_le[of "index annot" var] have dup: "\<not> distinct (index annot)"
    by auto
  from annotation_duplicates_closed_form[OF ok d t dup]
  have run: "annotation_duplicates it annot sep = Inr ?out" .
  have lab: "labels ?out = labels annot" by (auto simp: labels_def)
  from n have "positions var (index annot) \<noteq> []" by auto
  then have "var \<in> set (index annot)"
    by (auto simp: positions_def filter_empty_conv)
  with ok have vA: "var \<in> set ?A" and dA: "distinct ?A" by (simp_all add: set_iter_ok_def)
  then have one: "length (positions var (index ?out)) = 1"
    by (simp add: positions_distinct_one)
  from hd_positions[OF vA] have h: "hd (positions var ?A) < length ?A"
    "?A ! hd (positions var ?A) = var" by simp_all
  have cellp: "\<exists>c'. getitem ?out l = Inr c' \<and> dtype c' = dtype c \<and>
            cells c' ! hd (positions var (index ?out)) =
              (if dtype c = Object
               then Str (join_strs sep
                      (map (\<lambda>p. text_of (cells c ! p)) (positions var (index annot))))
               else cells c ! hd (positions var (index annot)))"
    if lc: "(l, c) \<in> set (cols annot)" for l c
  proof -
    from d lc have "map_of (cols annot) l = Some c" by (simp add: labels_def)
    then have g: "getitem ?out l
        = Inr (Column (dtype c) (map (\<lambda>var. row_cell annot sep var c) ?A))"
      by (simp add: getitem_def map_of_map)
    from h n show ?thesis
      unfolding g by (simp add: row_cell_def)
  qed
  from run lab one cellp show ?thesis by blast
qed

lemma annotation_duplicates_collapses_example:
  "\<exists>out. annotation_duplicates remdups dup_example '':'' = Inr out
      \<and> labels out = labels dup_example
      \<and> length (positions 1 (index out)) = 1
      \<and> (\<forall>(l, c) \<in> set (cols dup_example). \<exists>c'. getitem out l = Inr c' \<and> dtype c' = dtype c \<and>
            cells c' ! hd (positions 1 (index out)) =
              (if dtype c = Object
               then Str (join_strs '':''
                      (map (\<lambda>p. text_of (cells c ! p)) (positions 1 (index dup_example))))
               else cells c ! hd (positions 1 (index dup_example))))"
proof -
  have 1: "set_iter_ok (remdups :: nat list \<Rightarrow> nat list)" by (simp add: set_iter_ok_def)
  have 2: "distinct (labels dup_example)" by (simp add: labels_def dup_example_def)
  have 3: "text_in_duplicates dup_example" by code_simp
  have 4: "1 < length (positions 1 (index dup_example))" by code_simp
  show ?thesis by (rule annotation_duplicates_collapses[OF 1 2 3 4])
qed

lemma dup_example_result:
  "annotation_duplicates remdups dup_example '':'' =
     Inr (Frame [2, 3, 1]
       [(''gene'', Column Object [Str ''B'', NaN, Str ''A:C:D'']),
        (''score'', Column Float64 [NaN, Num 2, Num 1])])"
  by code_simp

text \<open>
  C5. For a Variant Key with more than one row the resolver is to return one row in
  which each object-typed column holds the joined values of the key's rows. The code
  joins with \<^verbatim>\<open>sep.join(list(lines[col]))\<close> and has no guard for a missing value: when
  an object-typed column holds a missing value in one of the rows of a repeated key,
  the join raises TypeError and no table is produced. For the table with index
  1, 2, 1 and the object column \<open>gene\<close> = A, B, missing, the key 1 has two rows and
  the call fails with TypeError, where the claim gives one row for key 1. A missing
  value in the only row of a key, or in a column of another dtype, is kept as it is.
\<close>

theorem annotation_duplicates_nan_type_error:
  "1 < length (positions 1 (index dup_example_nan))
   \<and> annotation_duplicates remdups dup_example_nan '':'' = Inl TypeError"
  by code_simp

lemma collapse_col_index:
  "collapse_col sep lines col line = Inr r \<Longrightarrow> index r = index line"
  by (auto simp: collapse_col_def index_setitem split: sum.splits if_splits)

lemma fold_collapse_index:
  "fold_err (collapse_col sep lines) ls line = Inr r \<Longrightarrow> index r = index line"
proof (induction ls arbitrary: line)
  case Nil
  then show ?case by simp
next
  case (Cons col ls)
  then obtain m where 1: "collapse_col sep lines col line = Inr m"
    and 2: "fold_err (collapse_col sep lines) ls m = Inr r"
    by (auto split: sum.splits)
  from Cons.IH[OF 2] collapse_col_index[OF 1] show ?case by simp
qed

lemma do_var_index:
  assumes v: "var \<in> set (index annot)" and r: "do_var annot sep var = Inr r"
  shows "index r = [var]"
proof -
  let ?ps = "positions var (index annot)"
  from positions_nonempty[OF v] obtain p ps' where ps: "?ps = p # ps'"
    by (cases ?ps) auto
  with hd_positions[OF v] have p: "index annot ! p = var" by simp
  show ?thesis
  proof (cases "length ?ps = 1")
    case True
    with r ps p show ?thesis
      by (auto simp: do_var_def loc_def index_take_rows)
  next
    case False
    with r have "fold_err (collapse_col sep (loc annot var)) (labels annot)
                   (take_rows [0] (loc annot var)) = Inr r"
      by (simp add: do_var_def Let_def loc_def index_take_rows)
    from fold_collapse_index[OF this] ps p show ?thesis
      by (simp add: loc_def index_take_rows)
  qed
qed

lemma map_err_index:
  "map_err (do_var annot sep) vs = Inr l \<Longrightarrow> set vs \<subseteq> set (index annot) \<Longrightarrow>
   concat (map index l) = vs"
proof (induction vs arbitrary: l)
  case Nil
  then show ?case by simp
next
  case (Cons v vs)
  then obtain r l' where 1: "do_var annot sep v = Inr r"
    and 2: "map_err (do_var annot sep) vs = Inr l'" and l: "l = r # l'"
    by (auto split: sum.splits)
  from Cons.prems(2) have v: "v \<in> set (index annot)" and vs: "set vs \<subseteq> set (index annot)"
    by auto
  from do_var_index[OF v 1] Cons.IH[OF 2 vs] l show ?case by simp
qed

lemma concat_rows_index:
  "concat_rows (map Some l) = Inr out \<Longrightarrow> index out = concat (map index l)"
  unfolding concat_rows_def somes_map_Some Let_def
  by (auto split: if_splits)

lemma annotation_duplicates_distinct:
  assumes ok: "set_iter_ok it" and r: "annotation_duplicates it annot sep = Inr out"
  shows "distinct (index out)"
proof (cases "distinct (index annot)")
  case True
  with r show ?thesis by (simp add: annotation_duplicates_def)
next
  case False
  with r obtain l where 1: "map_err (do_var annot sep) (it (index annot)) = Inr l"
    and 2: "concat_rows (map Some l) = Inr out"
    by (auto simp: annotation_duplicates_def split: sum.splits)
  from ok have s: "set (it (index annot)) \<subseteq> set (index annot)"
    and d: "distinct (it (index annot))"
    by (simp_all add: set_iter_ok_def)
  from map_err_index[OF 1 s] concat_rows_index[OF 2] d show ?thesis by simp
qed

text \<open>
  C6. Whenever the Duplicate Resolver returns a table, that table has no repeated
  Variant Key, and applying the resolver to it (with any separator and any iteration
  order) returns it unchanged.
\<close>

theorem annotation_duplicates_idempotent:
  assumes "set_iter_ok it" and "annotation_duplicates it annot sep = Inr out"
  shows "distinct (index out) \<and> annotation_duplicates it' out sep' = Inr out"
  using annotation_duplicates_distinct[OF assms]
  by (simp add: annotation_duplicates_def)

theorem annotation_duplicates_idempotent_witness:
  "annotation_duplicates remdups dup_example '':'' =
     Inr (Frame [2, 3, 1 :: nat]
       [(''gene'', Column Object [Str ''B'', NaN, Str ''A:C:D'']),
        (''score'', Column Float64 [NaN, Num 2, Num 1])])
   \<and> distinct [2, 3, 1 :: nat]
   \<and> annotation_duplicates remdups
       (Frame [2, 3, 1 :: nat]
         [(''gene'', Column Object [Str ''B'', NaN, Str ''A:C:D'']),
          (''score'', Column Float64 [NaN, Num 2, Num 1])]) '':'' =
     Inr (Frame [2, 3, 1 :: nat]
       [(''gene'', Column Object [Str ''B'', NaN, Str ''A:C:D'']),
        (''score'', Column Float64 [NaN, Num 2, Num 1])])"
proof -
  have 1: "set_iter_ok (remdups :: nat list \<Rightarrow> nat list)" by (simp add: set_iter_ok_def)
  from annotation_duplicates_idempotent[OF 1 dup_example_result, of remdups "'':''"]
    dup_example_result
  show ?thesis by simp
qed

section \<open>Facts about the Annotation Table Reader\<close>

lemma split_no_sep:
  "CHR '':'' \<notin> set a \<Longrightarrow> split_from '':'' acc a = [rev acc @ a]"
  by (induction a arbitrary: acc) auto

lemma split_at_sep:
  "CHR '':'' \<notin> set a \<Longrightarrow>
   split_from '':'' acc (a @ CHR '':'' # rest) = (rev acc @ a) # split_from '':'' [] rest"
  by (induction a arbitrary: acc) auto

lemma strip_chr_token:
  assumes "mid \<noteq> []" "CHR 0x0A \<notin> set mid"
  shows "strip_chr (''chr'' @ mid @ '':1'') = mid"
  using assms by (cases mid) (simp_all add: strip_chr_def Let_def)

lemma is_digit_not_sep: "is_digit c \<Longrightarrow> c \<noteq> CHR '':'' \<and> c \<noteq> CHR 0x0A \<and> c \<noteq> CHR ''-'' \<and> c \<noteq> CHR ''+''"
  by (auto simp: is_digit_def)

lemma is_digit_val: "is_digit c \<Longrightarrow> (0::int) \<le> of_char c - 48"
  by (auto simp: is_digit_def)

lemma foldl_digits_nonneg:
  "list_all is_digit ds \<Longrightarrow> (0::int) \<le> a \<Longrightarrow>
   0 \<le> foldl (\<lambda>a c. 10 * a + (of_char c - 48)) a ds"
proof (induction ds arbitrary: a)
  case Nil
  then show ?case by simp
next
  case (Cons d ds)
  from Cons.prems is_digit_val[of d] have "(0::int) \<le> 10 * a + (of_char d - 48)" by simp
  with Cons show ?case by simp
qed

lemma digits_val_nonneg: "list_all is_digit ds \<Longrightarrow> 0 \<le> digits_val ds"
  by (simp add: digits_val_def foldl_digits_nonneg)

lemma is_digit_not_space: "is_digit c \<Longrightarrow> \<not> is_space c \<and> c \<noteq> CHR ''_''"
  by (auto simp: is_digit_def is_space_def)

lemma py_strip_digits:
  assumes "p \<noteq> []" "list_all is_digit p"
  shows "py_strip p = p"
proof -
  from assms have "is_digit (hd p)" "is_digit (last p)" by (auto simp: list_all_iff)
  with is_digit_not_space have h: "\<not> is_space (hd p)" "\<not> is_space (last p)" by auto
  from h(1) have 1: "dropWhile is_space p = p" by (simp add: dropWhile_eq_self_iff)
  from h(2) assms(1) have 2: "dropWhile is_space (rev p) = rev p"
    by (simp add: dropWhile_eq_self_iff hd_rev)
  show ?thesis by (simp add: py_strip_def 1 2)
qed

lemma digit_groups_digits: "p \<noteq> [] \<Longrightarrow> list_all is_digit p \<Longrightarrow> digit_groups p"
  by (induction p rule: digit_groups.induct) (auto dest: is_digit_not_space)

lemma filter_underscore_digits: "list_all is_digit p \<Longrightarrow> filter (\<lambda>c. c \<noteq> CHR ''_'') p = p"
  by (auto simp: list_all_iff filter_id_conv dest: is_digit_not_space)

lemma astype_int64_digits:
  assumes "p \<noteq> []" "list_all is_digit p" "digits_val p < 2 ^ 63"
  shows "astype_int64 p = Inr (digits_val p)"
proof -
  from assms(1,2) have "is_digit (hd p)" by (cases p) auto
  with is_digit_not_sep have h: "hd p \<noteq> CHR ''-''" "hd p \<noteq> CHR ''+''" by auto
  from digits_val_nonneg[OF assms(2)] have "\<not> digits_val p < - (2 ^ 63)" by simp
  with assms h show ?thesis
    by (simp add: astype_int64_def Let_def py_strip_digits digit_groups_digits
        filter_underscore_digits)
qed

lemma varid2index_token:
  assumes "wf_token (c, p, m)"
  shows "varid2index (token (c, p, m)) = [c, p, m]"
proof -
  from assms have c: "CHR '':'' \<notin> set c" "CHR 0x0A \<notin> set c"
    and m: "CHR '':'' \<notin> set m" "CHR 0x0A \<notin> set m"
    and p: "list_all is_digit p"
    by (simp_all add: wf_token_def wf_field_def)
  from p is_digit_not_sep have p': "CHR '':'' \<notin> set p" "CHR 0x0A \<notin> set p"
    by (auto simp: list_all_iff)
  let ?mid = "c @ '':'' @ p @ '':'' @ m"
  have "strip_chr (''chr'' @ ?mid @ '':1'') = ?mid"
    by (rule strip_chr_token) (use c m p' in auto)
  then have s: "strip_chr (token (c, p, m)) = ?mid" by (simp add: token_def)
  have "split_from '':'' [] ?mid = [c, p, m]"
    using split_at_sep[OF c(1), of "[]" "p @ '':'' @ m"]
      split_at_sep[OF p'(1), of "[]" m] split_no_sep[OF m(1), of "[]"]
    by simp
  with s show ?thesis by (simp add: varid2index_def)
qed

lemma map_err_map:
  "(\<And>x. x \<in> set xs \<Longrightarrow> f (k x) = Inr (g x)) \<Longrightarrow> map_err f (map k xs) = Inr (map g xs)"
  by (induction xs) auto

text \<open>
  C9 (amended). The \<open>chr\<close> prefix is required, not optional. For a table whose
  identity column holds, in every row, a token \<open>chrCHROM:POS:MUTATION:1\<close> (the fields
  free of colons and newlines, POS decimal digits below \<open>2^63\<close>), and which has at
  least one row, the Reader strips \<open>chr\<close> and \<open>:1\<close>, indexes each row by the Variant
  Key (individual, tissue, CHROM, POS as an integer, MUTATION), drops the columns
  \<open>Variation ID\<close>, \<open>Chromosome\<close> and \<open>Position\<close>, and prefixes the remaining column
  names with the annotation name.
\<close>

theorem read_TXT_per_annotation_wellformed:
  assumes csv: "read_csv tsvpath na_values = Inr raw"
    and vid: "getitem raw ''Variation ID'' = Inr vid"
    and toks: "cells vid = map (\<lambda>t. Str (token t)) toks"
    and ne: "toks \<noteq> []"
    and wf: "list_all wf_token toks"
  shows "read_TXT_per_annotation read_csv tsvpath indivID tissue annotname na_values
           simplecolumns =
         Inr (Frame (map (token_key indivID tissue) toks)
                (map (\<lambda>(a, c).
                        (if simplecolumns
                         then Simple ((case annotname of None \<Rightarrow> tsvpath2annotname tsvpath
                                        | Some a \<Rightarrow> a) @ ''_'' @ a)
                         else Multi (case annotname of None \<Rightarrow> tsvpath2annotname tsvpath
                                        | Some a \<Rightarrow> a) a, c))
                   (filter (\<lambda>(a, c). a \<notin> set [''Variation ID'', ''Chromosome'', ''Position''])
                      (cols raw))))"
proof -
  let ?row = "\<lambda>t. case t of (c, p, m) \<Rightarrow> [indivID, tissue, c, p, m]"
  have rows: "map_err (id_row indivID tissue) (cells vid) = Inr (map ?row toks)"
    unfolding toks
  proof (rule map_err_map)
    fix t assume "t \<in> set toks"
    with wf have "wf_token t" by (simp add: list_all_iff)
    then show "id_row indivID tissue (Str (token t)) = Inr (?row t)"
      by (cases t) (simp add: id_row_def varid2index_token)
  qed
  have five: "list_all (\<lambda>r. length r = 5) (map ?row toks)"
    by (auto simp: list_all_iff)
  have keys: "map_err row_key (map ?row toks) = Inr (map (token_key indivID tissue) toks)"
  proof (rule map_err_map)
    fix t assume "t \<in> set toks"
    with wf have w: "wf_token t" by (simp add: list_all_iff)
    obtain c p m where t: "t = (c, p, m)" by (cases t) auto
    from w t have "astype_int64 p = Inr (digits_val p)"
      by (simp add: wf_token_def astype_int64_digits)
    with t show "row_key (?row t) = Inr (token_key indivID tissue t)"
      by (simp add: token_key_def row_key_def)
  qed
  show ?thesis
    unfolding read_TXT_per_annotation_def Let_def csv vid rows keys sum.case
    using five ne by (simp add: rename_label_def identity_columns_def)
qed

theorem read_TXT_per_annotation_wellformed_witness:
  "read_TXT_per_annotation (\<lambda>p na. Inr near_gens_example)
       ''/annot/MSSM_1_NeuN_pl/near_gens.txt'' ''CMC_MSSM_1'' ''NeuN_pl'' None [] True
     = Inr (Frame
         [VariantKey ''CMC_MSSM_1'' ''NeuN_pl'' ''1'' 12345 ''A/G'',
          VariantKey ''CMC_MSSM_1'' ''NeuN_pl'' ''X'' 678 ''C/T'']
         [(Simple ''near_gens_Overlapped Gene'', Column Object [Str ''BRCA1'', Str ''None'']),
          (Simple ''near_gens_Distance'', Column Float64 [Num 7, NaN])])"
proof -
  let ?toks = "[(''1'', ''12345'', ''A/G''), (''X'', ''678'', ''C/T'')]"
  have 1: "getitem near_gens_example ''Variation ID''
             = Inr (Column Object [Str ''chr1:12345:A/G:1'', Str ''chrX:678:C/T:1''])"
    by (simp add: getitem_def near_gens_example_def)
  have 2: "cells (Column Object [Str ''chr1:12345:A/G:1'', Str ''chrX:678:C/T:1''])
             = map (\<lambda>t. Str (token t)) ?toks"
    by (simp add: token_def)
  have 3: "?toks \<noteq> []" by simp
  have 4: "list_all wf_token ?toks"
    by (simp add: wf_token_def wf_field_def is_digit_def digits_val_def)
  have 5: "tsvpath2annotname ''/annot/MSSM_1_NeuN_pl/near_gens.txt'' = ''near_gens''"
    by (simp add: tsvpath2annotname_def basename_def)
  from read_TXT_per_annotation_wellformed[of "\<lambda>p na. Inr near_gens_example"
      "''/annot/MSSM_1_NeuN_pl/near_gens.txt''" "[]" near_gens_example, OF refl 1 2 3 4,
      of "''CMC_MSSM_1''" "''NeuN_pl''" None True]
  show ?thesis
    by (simp add: 5 token_key_def digits_val_def near_gens_example_def)
qed

text \<open>
  C9 as stated fails for a token without the \<open>chr\<close> prefix: the pattern
  \<^verbatim>\<open>^chr(.+):1$\<close> does not match, so the suffix \<open>:1\<close> is not stripped either, the
  token splits into four fields, and building the five-column index frame raises
  ValueError.
\<close>

theorem read_TXT_per_annotation_no_chr_counterexample:
  "read_TXT_per_annotation (\<lambda>p na. Inr no_chr_example)
       ''/annot/MSSM_1_NeuN_pl/near_gens.txt'' ''CMC_MSSM_1'' ''NeuN_pl'' None [] True
     = Inl ValueError
   \<and> varid2index ''1:12345:A/G:1'' = [''1'', ''12345'', ''A/G'', ''1'']"
  by code_simp

section \<open>Facts about the Binarizer\<close>

lemma extended_columns_labels:
  "extended_columns ls cs suffix = Inr ext \<Longrightarrow> set ls \<subseteq> set ext"
  by (auto simp: extended_columns_def Let_def split: if_splits)

lemma getitem_labels_Inr: "c \<in> set (labels df) \<Longrightarrow> \<exists>a. getitem df c = Inr a"
  by (cases "map_of (cols df) c") (auto simp: getitem_def labels_def map_of_eq_None_iff)

lemma reindex_columns_getitem:
  assumes "reindex_columns df ext = Inr v" "c \<in> set ext" "c \<in> set (labels df)"
  shows "getitem v c = getitem df c \<and> index v = index df"
proof (cases "labels df = ext")
  case True
  with assms show ?thesis by (simp add: reindex_columns_def)
next
  case False
  with assms(1) have v: "v = Frame (index df)
             (map (\<lambda>l. (l, case map_of (cols df) l of
                            Some c \<Rightarrow> c
                          | None \<Rightarrow> Column Float64 (replicate (length (index df)) NaN)))
                ext)"
    by (auto simp: reindex_columns_def split: if_splits)
  from getitem_labels_Inr[OF assms(3)] obtain a where a: "map_of (cols df) c = Some a"
    by (auto simp: getitem_def split: option.splits)
  with assms(2) show ?thesis
    by (simp add: v getitem_def map_of_map_restrict)
qed


lemma reindex_rows_getitem:
  assumes "reindex_rows df target = Inr v" "getitem df c = Inr a"
  shows "\<exists>a'. getitem v c = Inr a' \<and>
           cells a' = (if index df = target then cells a
                       else map (lookup_cell (index df) (cells a)) target)"
proof (cases "index df = target")
  case True
  with assms show ?thesis by (simp add: reindex_rows_def)
next
  case False
  with assms(1) have v: "v = Frame target
             (map (\<lambda>(l, c). (l, Column (if set target \<subseteq> set (index df) then dtype c
                                         else na_dtype (dtype c))
                                 (map (lookup_cell (index df) (cells c)) target)))
                (cols df))"
    by (auto simp: reindex_rows_def split: if_splits)
  from assms(2) have "map_of (cols df) c = Some a"
    by (auto simp: getitem_def split: option.splits)
  with False show ?thesis
    by (simp add: v getitem_def map_of_map)
qed

lemma lookup_cell_absent: "k \<notin> set idx \<Longrightarrow> lookup_cell idx cs k = NaN"
proof -
  assume "k \<notin> set idx"
  then have "k \<notin> fst ` set (zip idx cs)" by (auto dest: set_zip_leftD)
  then have "map_of (zip idx cs) k = None" by (simp add: map_of_eq_None_iff)
  then show ?thesis by (simp add: lookup_cell_def)
qed

lemma do_col_other:
  "do_col suffix dc col v = Inr v' \<Longrightarrow> l \<noteq> col @ suffix \<Longrightarrow> getitem v' l = getitem v l"
  by (auto simp: do_col_def getitem_setitem_other split: sum.splits)















lemma fold_do_col_returns:
  "\<forall>c \<in> set cs. \<exists>a. getitem v c = Inr a \<Longrightarrow>
   \<forall>c \<in> set cs. \<forall>c' \<in> set cs. c \<noteq> c' @ suffix \<Longrightarrow>
   \<exists>v'. fold_err (do_col suffix dc) cs v = Inr v'"
proof (induction cs arbitrary: v)
  case Nil
  then show ?case by simp
next
  case (Cons col cs)
  from Cons.prems(1) obtain a where a: "getitem v col = Inr a" by auto
  let ?w = "setitem v (col @ suffix) (indicator dc (cells a))"
  from a have w: "do_col suffix dc col v = Inr ?w" by (simp add: do_col_def)
  have "\<forall>c \<in> set cs. \<exists>a. getitem ?w c = Inr a"
  proof
    fix c assume c: "c \<in> set cs"
    with Cons.prems(2) have "c \<noteq> col @ suffix" by auto
    with do_col_other[OF w] Cons.prems(1) c show "\<exists>a. getitem ?w c = Inr a" by simp
  qed
  moreover from Cons.prems(2) have "\<forall>c \<in> set cs. \<forall>c' \<in> set cs. c \<noteq> c' @ suffix" by auto
  ultimately obtain v' where "fold_err (do_col suffix dc) cs ?w = Inr v'"
    using Cons.IH by blast
  with w show ?case by simp
qed

text \<open>
  The Binarizer returns a table whenever the annotation table has at least one
  column, distinct column labels and a duplicate-free index (or the index of the call
  set), the selected columns are columns of the table, and no indicator name is in use.
\<close>

lemma binarize_cols_returns:
  fixes annot :: "('k, string) frame"
  assumes ne: "labels annot \<noteq> []" and d: "distinct (labels annot)"
    and di: "distinct (index annot) \<or> index annot = index calls"
    and sub: "set cols2binarize \<subseteq> set (labels annot)"
    and fresh: "\<forall>c \<in> set cols2binarize. c @ suffix \<notin> set (labels annot)"
  shows "\<exists>val. binarize_cols cols2binarize annot calls suffix do_categ = Inr val"
proof -
  from ne obtain ext where e: "extended_columns (labels annot) cols2binarize suffix = Inr ext"
    by (auto simp: extended_columns_def Let_def)
  from d obtain v1 :: "('k, string) frame" where r1: "reindex_columns annot ext = Inr v1"
    by (cases "labels annot = ext") (auto simp: reindex_columns_def)
  from ne obtain l0 where "l0 \<in> set (labels annot)" by (cases "labels annot") auto
  with extended_columns_labels[OF e] reindex_columns_getitem[OF r1, of l0]
  have i1: "index v1 = index annot" by auto
  with di obtain v2 :: "('k, string) frame" where r2: "reindex_rows v1 (index calls) = Inr v2"
    by (cases "index v1 = index calls") (auto simp: reindex_rows_def)
  have g: "\<forall>c \<in> set cols2binarize. \<exists>a. getitem v2 c = Inr a"
  proof
    fix c assume "c \<in> set cols2binarize"
    with sub have cl: "c \<in> set (labels annot)" by auto
    with extended_columns_labels[OF e] have ce: "c \<in> set ext" by auto
    from getitem_labels_Inr[OF cl] obtain a where "getitem annot c = Inr a" by blast
    with reindex_columns_getitem[OF r1 ce cl] have "getitem v1 c = Inr a" by simp
    from reindex_rows_getitem[OF r2 this] show "\<exists>a. getitem v2 c = Inr a" by blast
  qed
  have "\<forall>c \<in> set cols2binarize. \<forall>c' \<in> set cols2binarize. c \<noteq> c' @ suffix"
    using sub fresh by auto
  from fold_do_col_returns[OF g this] obtain val where
    "fold_err (do_col suffix do_categ) cols2binarize v2 = Inr val" by blast
  with e r1 r2 show ?thesis by (simp add: binarize_cols_def)
qed

section \<open>Facts about the Multi-Source Joiner\<close>

lemma lengths_okD: "lengths_ok df \<Longrightarrow> (l, c) \<in> set (cols df) \<Longrightarrow> length (cells c) = length (index df)"
  by (auto simp: lengths_ok_def list_all_iff)

lemma getitem_Inr_mem: "getitem df c = Inr a \<Longrightarrow> (c, a) \<in> set (cols df)"
  by (auto simp: getitem_def split: option.splits dest: map_of_SomeD)

lemma reader_lengths:
  assumes r: "read_TXT_per_annotation rc p i t an na sc = Inr T"
    and raw: "rc p na = Inr raw" and ok: "lengths_ok raw"
  shows "lengths_ok T"
proof -
  let ?f = "rename_label sc (case an of None \<Rightarrow> tsvpath2annotname p | Some a \<Rightarrow> a)"
  from r raw obtain vid l keys where
    vid: "getitem raw ''Variation ID'' = Inr vid"
    and l: "map_err (id_row i t) (cells vid) = Inr l"
    and keys: "map_err row_key l = Inr keys"
    and T: "T = Frame keys (map (\<lambda>(a, c). (?f a, c))
                (filter (\<lambda>(a, c). a \<notin> set identity_columns) (cols raw)))"
    unfolding read_TXT_per_annotation_def Let_def
    by (simp split: sum.splits if_splits)
  from map_err_Inr[OF l] map_err_Inr[OF keys] lengths_okD[OF ok getitem_Inr_mem[OF vid]]
  have len: "length keys = length (index raw)" by simp
  show ?thesis
    unfolding T lengths_ok_def list_all_iff using lengths_okD[OF ok] len by auto
qed

lemma one_row_take_rows: "one_row (labels df) (take_rows [p] df)"
  unfolding one_row_def labels_take_rows by (auto simp: take_rows_def list_all_iff)

lemma one_row_setitem:
  assumes "one_row L df" "c \<in> set L" "length (cells x) = 1"
  shows "one_row L (setitem df c x)"
proof -
  from assms have "labels (setitem df c x) = L" by (simp add: one_row_def labels_setitem)
  moreover from assms(3) have "setitem df c x =
     (if c \<in> set (labels df)
      then Frame (index df) (map (\<lambda>(l, y). if l = c then (l, x) else (l, y)) (cols df))
      else Frame (index df) (cols df @ [(c, x)]))"
    by (intro setitem_plain) simp
  with assms have "list_all (\<lambda>(l, c). length (cells c) = 1) (cols (setitem df c x))"
    by (auto simp: one_row_def list_all_iff split: if_splits)
  ultimately show ?thesis by (simp add: one_row_def)
qed

lemma collapse_col_one_row:
  assumes "collapse_col sep lines col line = Inr r" "one_row (labels lines) line"
  shows "one_row (labels lines) r"
proof -
  from assms(1) have "r = line \<or>
      (\<exists>j. col \<in> set (labels lines) \<and> r = setitem line col (Column Object [Str j]))"
    by (auto simp: collapse_col_def getitem_Inr_labels split: sum.splits if_splits)
  with assms(2) show ?thesis by (auto intro: one_row_setitem)
qed

lemma fold_collapse_one_row:
  "fold_err (collapse_col sep lines) ls line = Inr r \<Longrightarrow> one_row (labels lines) line \<Longrightarrow>
   one_row (labels lines) r"
proof (induction ls arbitrary: line)
  case Nil
  then show ?case by simp
next
  case (Cons col ls)
  then obtain m where 1: "collapse_col sep lines col line = Inr m"
    and 2: "fold_err (collapse_col sep lines) ls m = Inr r"
    by (auto split: sum.splits)
  from Cons.IH[OF 2 collapse_col_one_row[OF 1 Cons.prems(2)]] show ?case .
qed

lemma do_var_one_row:
  assumes "do_var annot sep var = Inr r"
  shows "one_row (labels annot) r"
proof (cases "length (positions var (index annot)) = 1")
  case True
  then obtain p where "positions var (index annot) = [p]"
    by (cases "positions var (index annot)") auto
  with assms True one_row_take_rows[of annot p] show ?thesis
    by (simp add: do_var_def loc_def index_take_rows)
next
  case False
  with assms have f: "fold_err (collapse_col sep (loc annot var)) (labels annot)
                   (take_rows [0] (loc annot var)) = Inr r"
    by (simp add: do_var_def Let_def loc_def index_take_rows)
  have l: "labels (loc annot var) = labels annot" by (simp add: loc_def labels_take_rows)
  from fold_collapse_one_row[OF f] one_row_take_rows[of "loc annot var" 0] l
  show ?thesis by simp
qed

lemma length_concat_ones:
  "(\<And>x. x \<in> set xs \<Longrightarrow> length (f x) = 1) \<Longrightarrow> length (concat (map f xs)) = length xs"
  by (induction xs) auto

lemma resolver_lengths:
  assumes ok: "set_iter_ok it" and r: "annotation_duplicates it T sep = Inr R"
    and len: "lengths_ok T"
  shows "lengths_ok R"
proof (cases "distinct (index T)")
  case True
  with r len show ?thesis by (simp add: annotation_duplicates_def)
next
  case False
  with r obtain l where 1: "map_err (do_var T sep) (it (index T)) = Inr l"
    and 2: "concat_rows (map Some l) = Inr R"
    by (auto simp: annotation_duplicates_def split: sum.splits)
  from ok have s: "set (it (index T)) \<subseteq> set (index T)" by (simp add: set_iter_ok_def)
  from False have "index T \<noteq> []" by auto
  with ok have "it (index T) \<noteq> []" unfolding set_iter_ok_def by (metis set_empty)
  with map_err_Inr[OF 1] have ne: "l \<noteq> []" by auto
  have each: "one_row (labels T) r \<and> index r = [v]"
    if "i < length l" "r = l ! i" "v = it (index T) ! i" for i r v
  proof -
    from map_err_Inr[OF 1] that have d: "do_var T sep v = Inr r" and i: "i < length (it (index T))"
      by auto
    with s that have "v \<in> set (index T)" by auto
    from do_var_index[OF this d] do_var_one_row[OF d] show ?thesis by simp
  qed
  then have all: "\<And>r. r \<in> set l \<Longrightarrow> one_row (labels T) r \<and> length (index r) = 1"
    by (auto simp: in_set_conv_nth)
  then have lab: "\<And>df. df \<in> set l \<Longrightarrow> labels df = labels T" by (simp add: one_row_def)
  from concat_rows_same_labels[OF ne lab] 2
  have R: "R = Frame (concat (map index l))
             (map (\<lambda>j. (labels T ! j,
                     Column (common_dtype (map (\<lambda>df. dtype (snd (cols df ! j))) l) False)
                       (concat (map (\<lambda>df. cells (snd (cols df ! j))) l))))
                [0..<length (labels T)])"
    by simp
  have li: "length (concat (map index l)) = length l"
    by (rule length_concat_ones) (simp add: all)
  have lc: "length (concat (map (\<lambda>df. cells (snd (cols df ! j))) l)) = length l"
    if j: "j < length (labels T)" for j
  proof (rule length_concat_ones)
    fix df assume df: "df \<in> set l"
    with all have o: "one_row (labels T) df" by simp
    then have "length (cols df) = length (labels T)" by (auto simp: one_row_def labels_def dest: arg_cong[where f = length])
    with j have "cols df ! j \<in> set (cols df)" by simp
    with o show "length (cells (snd (cols df ! j))) = 1"
      by (auto simp: one_row_def list_all_iff split_beta)
  qed
  show ?thesis
    unfolding R lengths_ok_def list_all_iff using li lc by auto
qed

lemma reader_Inr_raw:
  "read_TXT_per_annotation rc p i t an na sc = Inr T \<Longrightarrow> \<exists>raw. rc p na = Inr raw"
  unfolding read_TXT_per_annotation_def Let_def by (cases "rc p na") auto

text \<open>A ValueError of the Reader makes the pair contribute nothing.\<close>

lemma get_annot_skip:
  assumes "read_TXT_per_annotation read_csv
             (annotdirpath @ ''/'' @ sample @ ''/'' @ annotyp @ ''.txt'')
             (sample2indivID sample) (sample2tissue sample) None
             (case map_of d annotyp of Some v \<Rightarrow> v | None \<Rightarrow> []) simplecolumns
           = Inl ValueError"
  shows "get_annot read_csv it annotdirpath (NaDict d) simplecolumns sample annotyp = Inr None"
  using assms by (simp add: get_annot_def Let_def)

text \<open>Every other exception of the Reader leaves \<open>get_annot\<close>.\<close>

lemma get_annot_raise:
  assumes "read_TXT_per_annotation read_csv
             (annotdirpath @ ''/'' @ sample @ ''/'' @ annotyp @ ''.txt'')
             (sample2indivID sample) (sample2tissue sample) None
             (case map_of d annotyp of Some v \<Rightarrow> v | None \<Rightarrow> []) simplecolumns
           = Inl e" "e \<noteq> ValueError"
  shows "get_annot read_csv it annotdirpath (NaDict d) simplecolumns sample annotyp = Inl e"
  using assms by (simp add: get_annot_def Let_def)

text \<open>With the default \<^verbatim>\<open>na_values=[]\<close> every pair fails with AttributeError.\<close>

lemma get_annot_default_na_values:
  "get_annot read_csv it annotdirpath (NaList l) simplecolumns sample annotyp = Inl AttributeError"
  by (simp add: get_annot_def Let_def)

lemma get_annot_lengths:
  assumes env: "\<And>p na raw. read_csv p na = Inr raw \<Longrightarrow> lengths_ok raw"
    and ok: "set_iter_ok it"
    and g: "get_annot read_csv it annotdirpath na_values simplecolumns sample annotyp
              = Inr (Some T)"
  shows "lengths_ok T"
proof -
  from g obtain d R where
    r: "read_TXT_per_annotation read_csv
             (annotdirpath @ ''/'' @ sample @ ''/'' @ annotyp @ ''.txt'')
             (sample2indivID sample) (sample2tissue sample) None
             (case map_of d annotyp of Some v \<Rightarrow> v | None \<Rightarrow> []) simplecolumns = Inr R"
    and a: "annotation_duplicates it R '':'' = Inr T"
    by (auto simp: get_annot_def Let_def split: na_spec.splits sum.splits if_splits)
  from reader_Inr_raw[OF r] obtain raw where raw: "read_csv
             (annotdirpath @ ''/'' @ sample @ ''/'' @ annotyp @ ''.txt'')
             (case map_of d annotyp of Some v \<Rightarrow> v | None \<Rightarrow> []) = Inr raw" by blast
  from resolver_lengths[OF ok a reader_lengths[OF r raw env[OF raw]]] show ?thesis .
qed

lemma concat_rows_index_somes:
  "concat_rows objs = Inr S \<Longrightarrow> index S = concat (map index (somes objs))"
  unfolding concat_rows_def Let_def by (auto split: if_splits)

lemma concat_rows_column:
  assumes S: "concat_rows objs = Inr S" and T: "T \<in> set (somes objs)"
    and lc: "(l, c) \<in> set (cols T)"
  shows "\<exists>d pf. (l, Column d (concat (map pf (somes objs)))) \<in> set (cols S) \<and> pf T = cells c
           \<and> (\<forall>df \<in> set (somes objs). lengths_ok df \<longrightarrow> length (pf df) = length (index df))"
proof -
  let ?fs = "somes objs"
  from T have ne: "?fs \<noteq> []" by auto
  show ?thesis
  proof (cases "list_all (\<lambda>df. labels df = labels (hd ?fs)) ?fs")
    case True
    then have lab: "\<And>df. df \<in> set ?fs \<Longrightarrow> labels df = labels T"
      using T by (auto simp: list_all_iff)
    with ne have hdl: "labels (hd ?fs) = labels T" by simp
    from lc obtain q where q: "q < length (cols T)" "cols T ! q = (l, c)"
      by (auto simp: in_set_conv_nth)
    then have ql: "q < length (labels T)" and lq: "labels T ! q = l"
      by (simp_all add: labels_def)
    let ?pf = "\<lambda>df. cells (snd (cols df ! q))"
    let ?d = "common_dtype (map (\<lambda>df. dtype (snd (cols df ! q))) ?fs) False"
    from S ne True hdl have cS: "cols S =
        map (\<lambda>j. (labels T ! j,
                     Column (common_dtype (map (\<lambda>df. dtype (snd (cols df ! j))) ?fs) False)
                       (concat (map (\<lambda>df. cells (snd (cols df ! j))) ?fs))))
                [0..<length (labels T)]"
      unfolding concat_rows_def Let_def by auto
    have "(l, Column ?d (concat (map ?pf ?fs))) \<in> set (cols S)"
      unfolding cS using ql lq by (auto simp: image_iff intro!: bexI[of _ q])
    moreover have "?pf T = cells c" using q by simp
    moreover have "length (?pf df) = length (index df)"
      if df: "df \<in> set ?fs" and ok: "lengths_ok df" for df
    proof -
      from lab[OF df] have "length (cols df) = length (cols T)"
        by (auto simp: labels_def dest: arg_cong[where f = length])
      with q have "cols df ! q \<in> set (cols df)" by simp
      then have "(fst (cols df ! q), snd (cols df ! q)) \<in> set (cols df)" by simp
      from lengths_okD[OF ok this] show ?thesis .
    qed
    ultimately show ?thesis by blast
  next
    case False
    let ?pf = "\<lambda>df. piece df l"
    let ?d = "common_dtype (concat (map (\<lambda>df. case map_of (cols df) l of
                                                     None \<Rightarrow> [] | Some c \<Rightarrow> [dtype c]) ?fs))
                               (list_ex (\<lambda>df. l \<notin> set (labels df)) ?fs)"
    from S ne False have nd: "\<not> list_ex (\<lambda>df. \<not> distinct (labels df)) ?fs"
      and cS: "cols S = map (\<lambda>l. (l,
                     Column (common_dtype
                               (concat (map (\<lambda>df. case map_of (cols df) l of
                                                     None \<Rightarrow> [] | Some c \<Rightarrow> [dtype c]) ?fs))
                               (list_ex (\<lambda>df. l \<notin> set (labels df)) ?fs))
                       (concat (map (\<lambda>df. piece df l) ?fs))))
                (union_labels (map labels ?fs))"
      unfolding concat_rows_def Let_def by (auto split: if_splits)
    from nd T have dT: "distinct (labels T)" by (auto simp: list_ex_iff)
    with lc have m: "map_of (cols T) l = Some c" by (simp add: labels_def)
    from lc T have "l \<in> set (union_labels (map labels ?fs))"
      by (force simp: union_labels_def labels_def)
    then have "(l, Column ?d (concat (map ?pf ?fs))) \<in> set (cols S)"
      unfolding cS by (auto simp: image_iff)
    moreover have "?pf T = cells c" using m by (simp add: piece_def)
    moreover have "length (?pf df) = length (index df)"
      if df: "df \<in> set ?fs" and ok: "lengths_ok df" for df
    proof (cases "map_of (cols df) l")
      case None
      then show ?thesis by (simp add: piece_def)
    next
      case (Some c')
      then have "(l, c') \<in> set (cols df)" by (rule map_of_SomeD)
      from lengths_okD[OF ok this] Some show ?thesis by (simp add: piece_def)
    qed
    ultimately show ?thesis by blast
  qed
qed

lemma length_concat_cong:
  "(\<And>x. x \<in> set xs \<Longrightarrow> length (f x) = length (g x)) \<Longrightarrow>
   length (concat (map f xs)) = length (concat (map g xs))"
  by (induction xs) auto

lemma nth_concat_middle:
  "j < length (f t) \<Longrightarrow>
   concat (map f (pre @ t # post)) ! (length (concat (map f pre)) + j) = f t ! j"
  by (simp add: nth_append)

lemma concat_rows_row:
  assumes S: "concat_rows objs = Inr S" and T: "T \<in> set (somes objs)"
    and ok: "\<And>df. df \<in> set (somes objs) \<Longrightarrow> lengths_ok df"
    and j: "j < length (index T)"
  shows "\<exists>r < length (index S). index S ! r = index T ! j \<and>
           (\<forall>(l, c) \<in> set (cols T). \<exists>c'. (l, c') \<in> set (cols S)
               \<and> length (cells c') = length (index S) \<and> cells c' ! r = cells c ! j)"
proof -
  let ?fs = "somes objs"
  from T obtain pre post where fs: "?fs = pre @ T # post" by (auto dest: split_list)
  let ?r = "length (concat (map index pre)) + j"
  from concat_rows_index_somes[OF S] have iS: "index S = concat (map index ?fs)" .
  have r: "?r < length (index S)" using j by (simp add: iS fs)
  have k: "index S ! ?r = index T ! j"
    unfolding iS fs using j by (rule nth_concat_middle)
  have col: "\<exists>c'. (l, c') \<in> set (cols S) \<and> length (cells c') = length (index S)
               \<and> cells c' ! ?r = cells c ! j"
    if lc: "(l, c) \<in> set (cols T)" for l c
  proof -
    from concat_rows_column[OF S T lc] obtain d pf where
      m: "(l, Column d (concat (map pf ?fs))) \<in> set (cols S)" and pT: "pf T = cells c"
      and len: "\<And>df. df \<in> set ?fs \<Longrightarrow> length (pf df) = length (index df)"
      using ok by blast
    have all: "length (concat (map pf ?fs)) = length (index S)"
      unfolding iS by (rule length_concat_cong) (rule len)
    have "length (concat (map pf pre)) = length (concat (map index pre))"
      by (rule length_concat_cong) (rule len, simp add: fs)
    moreover from len[OF T] j have "j < length (pf T)" by simp
    ultimately have "concat (map pf ?fs) ! ?r = pf T ! j"
      unfolding fs using nth_concat_middle[of j pf T pre post] by simp
    with m pT all show ?thesis by force
  qed
  from r k col show ?thesis by blast
qed

lemma reindex_rows_column:
  assumes "reindex_rows df idx = Inr g" "(l, c) \<in> set (cols df)"
  shows "index g = idx \<and> (\<exists>c'. (l, c') \<in> set (cols g) \<and>
           cells c' = (if index df = idx then cells c
                       else map (lookup_cell (index df) (cells c)) idx))"
proof (cases "index df = idx")
  case True
  with assms show ?thesis by (auto simp: reindex_rows_def)
next
  case False
  with assms(1) have g: "g = Frame idx
             (map (\<lambda>(l, c). (l, Column (if set idx \<subseteq> set (index df) then dtype c
                                         else na_dtype (dtype c))
                                 (map (lookup_cell (index df) (cells c)) idx)))
                (cols df))"
    by (auto simp: reindex_rows_def split: if_splits)
  from assms(2) have "(l, Column (if set idx \<subseteq> set (index df) then dtype c
                                         else na_dtype (dtype c))
                                 (map (lookup_cell (index df) (cells c)) idx)) \<in> set (cols g)"
    unfolding g by (auto simp: image_iff intro!: bexI[of _ "(l, c)"])
  with False g show ?thesis by fastforce
qed

lemma concat_cols_reindexed:
  assumes U: "concat_cols un fs = Inr U"
    and ne: "\<not> list_all (\<lambda>df. index df = index (hd fs)) fs"
  shows "index U = un (concat (map index fs)) \<and> (\<forall>S \<in> set fs. distinct (index S)) \<and>
         (\<forall>S \<in> set fs. \<forall>(l, c) \<in> set (cols S). \<exists>c'. (l, c') \<in> set (cols U) \<and>
             cells c' = (if index S = index U then cells c
                         else map (lookup_cell (index S) (cells c)) (index U)))"
proof -
  let ?idx = "un (concat (map index fs))"
  from U ne obtain gs where d: "\<not> list_ex (\<lambda>df. \<not> distinct (index df)) fs"
    and gs: "map_err (\<lambda>df. reindex_rows df ?idx) fs = Inr gs"
    and Ueq: "U = Frame ?idx (concat (map cols gs))"
    unfolding concat_cols_def Let_def by (auto split: if_splits sum.splits)
  have col: "\<exists>c'. (l, c') \<in> set (cols U) \<and>
             cells c' = (if index S = index U then cells c
                         else map (lookup_cell (index S) (cells c)) (index U))"
    if S: "S \<in> set fs" and lc: "(l, c) \<in> set (cols S)" for S l c
  proof -
    from S obtain n where n: "n < length fs" "fs ! n = S" by (auto simp: in_set_conv_nth)
    with map_err_Inr[OF gs] have g: "reindex_rows S ?idx = Inr (gs ! n)" and ng: "n < length gs"
      by auto
    from reindex_rows_column[OF g lc] obtain c' where
      "(l, c') \<in> set (cols (gs ! n))"
      "cells c' = (if index S = ?idx then cells c
                       else map (lookup_cell (index S) (cells c)) ?idx)" by blast
    moreover from ng have "gs ! n \<in> set gs" by simp
    ultimately show ?thesis unfolding Ueq by auto
  qed
  from d have dd: "\<forall>S \<in> set fs. distinct (index S)" by (auto simp: list_ex_iff)
  from Ueq have i: "index U = ?idx" by simp
  from i dd col show ?thesis by blast
qed

lemma lookup_cell_nth:
  assumes "distinct idx" "p < length idx" "length cs = length idx"
  shows "lookup_cell idx cs (idx ! p) = cs ! p"
  using assms by (simp add: lookup_cell_def map_of_zip_nth)

lemma somes_iff: "x \<in> set (somes objs) \<longleftrightarrow> Some x \<in> set objs"
  by (induction objs) (auto simp: somes_def split: option.splits)

lemma map_err_mem:
  assumes "map_err f xs = Inr ys"
  shows "(x \<in> set xs \<longrightarrow> (\<exists>y \<in> set ys. f x = Inr y)) \<and> (y \<in> set ys \<longrightarrow> (\<exists>x \<in> set xs. f x = Inr y))"
proof -
  from map_err_Inr[OF assms] have len: "length ys = length xs"
    and nth: "\<And>i. i < length xs \<Longrightarrow> f (xs ! i) = Inr (ys ! i)" by auto
  show ?thesis
  proof (intro conjI impI)
    assume "x \<in> set xs"
    then obtain i where "i < length xs" "xs ! i = x" by (auto simp: in_set_conv_nth)
    with nth[of i] len show "\<exists>y \<in> set ys. f x = Inr y" by (auto intro!: bexI[of _ "ys ! i"])
  next
    assume "y \<in> set ys"
    then obtain i where "i < length ys" "ys ! i = y" by (auto simp: in_set_conv_nth)
    with nth[of i] len show "\<exists>x \<in> set xs. f x = Inr y" by (auto intro!: bexI[of _ "xs ! i"])
  qed
qed

text \<open>
  What the join holds when it returns a table \<open>U\<close>, for a pair \<open>(s, a)\<close> whose read
  raises ValueError: every row that another source \<open>b\<close> contributes for the sample is
  a row of \<open>U\<close>, holding the values of that source's table in its columns and missing
  values in the columns of the skipped source, when no sample contributes the row's
  key to the skipped source.
\<close>

lemma join_keeps_rows:
  assumes env: "\<And>p na raw. read_csv p na = Inr raw \<Longrightarrow> wf_frame raw"
    and it: "set_iter_ok it" and un: "set_iter_ok un"
    and run: "get_multi_annotations read_vcflist read_csv it un annotlist vcflistpath
                annotdirpath (NaDict d) simplecolumns = Inr U"
    and samples: "read_vcflist vcflistpath = Inr samples"
    and s: "s \<in> set samples" and a: "a \<in> set annotlist" and b: "b \<in> set annotlist"
    and bad: "read_TXT_per_annotation read_csv
                (annotdirpath @ ''/'' @ s @ ''/'' @ a @ ''.txt'')
                (sample2indivID s) (sample2tissue s) None
                (case map_of d a of Some v \<Rightarrow> v | None \<Rightarrow> []) simplecolumns = Inl ValueError"
    and good: "get_annot read_csv it annotdirpath (NaDict d) simplecolumns s b = Inr (Some T)"
    and j: "j < length (index T)"
    and absent: "\<forall>s' \<in> set samples. \<forall>T'.
                   get_annot read_csv it annotdirpath (NaDict d) simplecolumns s' a = Inr (Some T')
                   \<longrightarrow> index T ! j \<notin> set (index T')"
  shows "get_annot read_csv it annotdirpath (NaDict d) simplecolumns s a = Inr None
       \<and> (\<exists>Sa i. do_annotyp read_csv it annotdirpath (NaDict d) simplecolumns samples a = Inr Sa
             \<and> i < length (index U) \<and> index U ! i = index T ! j
             \<and> (\<forall>(l, c) \<in> set (cols T). \<exists>c'. (l, c') \<in> set (cols U) \<and> cells c' ! i = cells c ! j)
             \<and> (\<forall>(l, c) \<in> set (cols Sa). \<exists>c'. (l, c') \<in> set (cols U) \<and> cells c' ! i = NaN))"
proof -
  let ?G = "\<lambda>s a. get_annot read_csv it annotdirpath (NaDict d) simplecolumns s a"
  let ?D = "do_annotyp read_csv it annotdirpath (NaDict d) simplecolumns samples"
  let ?k = "index T ! j"
  have skip: "?G s a = Inr None" by (rule get_annot_skip[OF bad])
  from run samples obtain fs where fs: "map_err ?D annotlist = Inr fs"
    and U: "concat_cols un fs = Inr U"
    by (auto simp: get_multi_annotations_def split: sum.splits)
  from map_err_mem[OF fs, of a] a obtain Sa where Sa: "Sa \<in> set fs" "?D a = Inr Sa" by blast
  from map_err_mem[OF fs, of b] b obtain Sb where Sb: "Sb \<in> set fs" "?D b = Inr Sb" by blast
  from Sa(2) obtain oa where oa: "map_err (\<lambda>s. ?G s a) samples = Inr oa"
    and ca: "concat_rows oa = Inr Sa"
    by (auto simp: do_annotyp_def split: sum.splits)
  from Sb(2) obtain ob where ob: "map_err (\<lambda>s. ?G s b) samples = Inr ob"
    and cb: "concat_rows ob = Inr Sb"
    by (auto simp: do_annotyp_def split: sum.splits)
  from map_err_mem[OF ob, of s] s good have Tb: "T \<in> set (somes ob)"
    by (auto simp: somes_iff)
  have okb: "lengths_ok df" if "df \<in> set (somes ob)" for df
  proof -
    from that have "Some df \<in> set ob" by (simp add: somes_iff)
    with map_err_mem[OF ob, of _ "Some df"] obtain s' where "?G s' b = Inr (Some df)" by blast
    from get_annot_lengths[OF _ it this] env show ?thesis
      by (simp add: wf_frame_def)
  qed
  from concat_rows_row[OF cb Tb okb j] obtain r where r: "r < length (index Sb)"
    and kr: "index Sb ! r = ?k"
    and colb: "\<And>l c. (l, c) \<in> set (cols T) \<Longrightarrow> \<exists>c'. (l, c') \<in> set (cols Sb)
               \<and> length (cells c') = length (index Sb) \<and> cells c' ! r = cells c ! j"
    by blast
  from r kr have kb: "?k \<in> set (index Sb)" by (metis nth_mem)
  have ka: "?k \<notin> set (index Sa)"
  proof
    assume "?k \<in> set (index Sa)"
    with concat_rows_index_somes[OF ca] obtain T' where T': "T' \<in> set (somes oa)"
      and kT: "?k \<in> set (index T')" by auto
    from T' have "Some T' \<in> set oa" by (simp add: somes_iff)
    with map_err_mem[OF oa, of _ "Some T'"] obtain s' where "s' \<in> set samples"
      "?G s' a = Inr (Some T')" by blast
    with absent kT show False by blast
  qed
  have ne: "\<not> list_all (\<lambda>df. index df = index (hd fs)) fs"
  proof
    assume "list_all (\<lambda>df. index df = index (hd fs)) fs"
    with Sa(1) Sb(1) have "index Sa = index Sb" by (simp add: list_all_iff)
    with ka kb show False by simp
  qed
  from concat_cols_reindexed[OF U ne] have iU: "index U = un (concat (map index fs))"
    and dist: "\<And>S. S \<in> set fs \<Longrightarrow> distinct (index S)"
    and colU: "\<And>S l c. S \<in> set fs \<Longrightarrow> (l, c) \<in> set (cols S) \<Longrightarrow>
         \<exists>c'. (l, c') \<in> set (cols U) \<and>
             cells c' = (if index S = index U then cells c
                         else map (lookup_cell (index S) (cells c)) (index U))"
    by blast+
  from un have "set (index U) = set (concat (map index fs))" by (simp add: iU set_iter_ok_def)
  with kb Sb(1) have "?k \<in> set (index U)" by auto
  then obtain i where i: "i < length (index U)" and ki: "index U ! i = ?k"
    by (auto simp: in_set_conv_nth)
  have partb: "\<exists>c'. (l, c') \<in> set (cols U) \<and> cells c' ! i = cells c ! j"
    if lc: "(l, c) \<in> set (cols T)" for l c
  proof -
    from colb[OF lc] obtain c1 where c1: "(l, c1) \<in> set (cols Sb)"
      and len1: "length (cells c1) = length (index Sb)" and v1: "cells c1 ! r = cells c ! j"
      by blast
    from colU[OF Sb(1) c1] obtain c2 where c2: "(l, c2) \<in> set (cols U)"
      and v2: "cells c2 = (if index Sb = index U then cells c1
                         else map (lookup_cell (index Sb) (cells c1)) (index U))" by blast
    have "cells c2 ! i = cells c1 ! r"
    proof (cases "index Sb = index U")
      case True
      with dist[OF Sb(1)] i r ki kr have "i = r"
        by (metis nth_eq_iff_index_eq)
      with True v2 show ?thesis by simp
    next
      case False
      with v2 i ki kr have "cells c2 ! i = lookup_cell (index Sb) (cells c1) (index Sb ! r)"
        by simp
      with lookup_cell_nth[OF dist[OF Sb(1)] r len1] show ?thesis by simp
    qed
    with c2 v1 show ?thesis by auto
  qed
  have parta: "\<exists>c'. (l, c') \<in> set (cols U) \<and> cells c' ! i = NaN"
    if lc: "(l, c) \<in> set (cols Sa)" for l c
  proof -
    from colU[OF Sa(1) lc] obtain c2 where c2: "(l, c2) \<in> set (cols U)"
      and v2: "cells c2 = (if index Sa = index U then cells c
                         else map (lookup_cell (index Sa) (cells c)) (index U))" by blast
    from ka \<open>?k \<in> set (index U)\<close> have "index Sa \<noteq> index U" by auto
    with v2 i ki ka have "cells c2 ! i = NaN" by (simp add: lookup_cell_absent)
    with c2 show ?thesis by auto
  qed
  from skip Sa(2) i ki partb parta show ?thesis by blast
qed


lemma rename_label_inj: "rename_label sc an a = rename_label sc an a' \<Longrightarrow> a = a'"
  by (auto simp: rename_label_def split: if_splits)

lemma reader_labels_distinct:
  assumes r: "read_TXT_per_annotation rc p i t an na sc = Inr T"
    and raw: "rc p na = Inr raw" and ok: "distinct (labels raw)"
  shows "distinct (labels T)"
proof -
  let ?f = "rename_label sc (case an of None \<Rightarrow> tsvpath2annotname p | Some a \<Rightarrow> a)"
  from r raw obtain keys where
    T: "T = Frame keys (map (\<lambda>(a, c). (?f a, c))
                (filter (\<lambda>(a, c). a \<notin> set identity_columns) (cols raw)))"
    unfolding read_TXT_per_annotation_def Let_def
    by (auto split: sum.splits if_splits)
  have eq: "labels T = map ?f (map fst (filter (\<lambda>(a, c). a \<notin> set identity_columns) (cols raw)))"
    unfolding T labels_def by (simp add: split_beta o_def)
  have d: "distinct (map fst (filter (\<lambda>(a, c). a \<notin> set identity_columns) (cols raw)))"
    using ok unfolding labels_def by (rule distinct_map_filter)
  have inj: "inj_on ?f A" for A by (rule inj_onI) (rule rename_label_inj)
  have "distinct (map ?f xs)" if "distinct xs" for xs
    using that inj by (simp add: distinct_map)
  from this[OF d] show ?thesis unfolding eq .
qed

lemma id_row_fields: "id_row i t c = Inr r \<Longrightarrow> r ! 0 = i \<and> r ! 1 = t"
  by (auto simp: id_row_def split: cell.splits)

lemma row_key_fields:
  "row_key r = Inr k \<Longrightarrow> key_individual k = r ! 0 \<and> key_tissue k = r ! 1"
  by (auto simp: row_key_def split: sum.splits)

lemma reader_index_keys:
  assumes r: "read_TXT_per_annotation rc p i t an na sc = Inr T"
    and k: "k \<in> set (index T)"
  shows "key_individual k = i \<and> key_tissue k = t"
proof -
  from r obtain vid l keys where
    l: "map_err (id_row i t) (cells vid) = Inr l"
    and keys: "map_err row_key l = Inr keys"
    and T: "index T = keys"
    unfolding read_TXT_per_annotation_def Let_def
    by (auto split: sum.splits if_splits)
  from k T map_err_mem[OF keys, of _ k] obtain row where row: "row \<in> set l" "row_key row = Inr k"
    by auto
  from map_err_mem[OF l, of _ row] row(1) obtain c where "id_row i t c = Inr row" by auto
  from id_row_fields[OF this] row_key_fields[OF row(2)] show ?thesis by simp
qed

lemma resolver_index:
  assumes ok: "set_iter_ok it" and r: "annotation_duplicates it T sep = Inr R"
  shows "set (index R) = set (index T)"
proof (cases "distinct (index T)")
  case True
  with r show ?thesis by (simp add: annotation_duplicates_def)
next
  case False
  with r obtain l where 1: "map_err (do_var T sep) (it (index T)) = Inr l"
    and 2: "concat_rows (map Some l) = Inr R"
    by (auto simp: annotation_duplicates_def split: sum.splits)
  from ok have s: "set (it (index T)) \<subseteq> set (index T)" and e: "set (it (index T)) = set (index T)"
    by (simp_all add: set_iter_ok_def)
  from map_err_index[OF 1 s] concat_rows_index[OF 2] e show ?thesis by simp
qed

lemma resolver_labels:
  assumes ok: "set_iter_ok it" and r: "annotation_duplicates it T sep = Inr R"
  shows "labels R = labels T"
proof (cases "distinct (index T)")
  case True
  with r show ?thesis by (simp add: annotation_duplicates_def)
next
  case False
  with r obtain l where 1: "map_err (do_var T sep) (it (index T)) = Inr l"
    and 2: "concat_rows (map Some l) = Inr R"
    by (auto simp: annotation_duplicates_def split: sum.splits)
  from False have "index T \<noteq> []" by auto
  with ok have "it (index T) \<noteq> []" unfolding set_iter_ok_def by (metis set_empty)
  with map_err_Inr[OF 1] have ne: "l \<noteq> []" by auto
  have lab: "labels df = labels T" if "df \<in> set l" for df
  proof -
    from map_err_mem[OF 1, of _ df] that obtain v where "do_var T sep v = Inr df" by auto
    from do_var_one_row[OF this] show ?thesis by (simp add: one_row_def)
  qed
  from concat_rows_same_labels[OF ne lab] 2
  have R: "R = Frame (concat (map index l))
             (map (\<lambda>j. (labels T ! j,
                     Column (common_dtype (map (\<lambda>df. dtype (snd (cols df ! j))) l) False)
                       (concat (map (\<lambda>df. cells (snd (cols df ! j))) l))))
                [0..<length (labels T)])"
    by simp
  show ?thesis unfolding R using map_nth[of "labels T"] by (simp add: labels_Frame o_def)
qed


lemma get_annot_props:
  assumes env: "\<And>p na raw. read_csv p na = Inr raw \<Longrightarrow> wf_frame raw"
    and ok: "set_iter_ok it"
    and g: "get_annot read_csv it annotdirpath na_values simplecolumns sample annotyp
              = Inr (Some T)"
  shows "distinct (labels T) \<and> distinct (index T)
       \<and> (\<forall>k \<in> set (index T). key_individual k = sample2indivID sample
              \<and> key_tissue k = sample2tissue sample)"
proof -
  from g obtain d R where
    r: "read_TXT_per_annotation read_csv
             (annotdirpath @ ''/'' @ sample @ ''/'' @ annotyp @ ''.txt'')
             (sample2indivID sample) (sample2tissue sample) None
             (case map_of d annotyp of Some v \<Rightarrow> v | None \<Rightarrow> []) simplecolumns = Inr R"
    and a: "annotation_duplicates it R '':'' = Inr T"
    by (auto simp: get_annot_def Let_def split: na_spec.splits sum.splits if_splits)
  from reader_Inr_raw[OF r] obtain raw where raw: "read_csv
             (annotdirpath @ ''/'' @ sample @ ''/'' @ annotyp @ ''.txt'')
             (case map_of d annotyp of Some v \<Rightarrow> v | None \<Rightarrow> []) = Inr raw" by blast
  from env[OF raw] have "distinct (labels raw)" by (simp add: wf_frame_def)
  from reader_labels_distinct[OF r raw this] resolver_labels[OF ok a]
  have 1: "distinct (labels T)" by simp
  from annotation_duplicates_distinct[OF ok a] have 2: "distinct (index T)" .
  from resolver_index[OF ok a] reader_index_keys[OF r]
  have 3: "\<forall>k \<in> set (index T). key_individual k = sample2indivID sample
              \<and> key_tissue k = sample2tissue sample" by simp
  from 1 2 3 show ?thesis by blast
qed

lemma distinct_concat_keyed:
  "distinct (map f xs) \<Longrightarrow> (\<And>x. x \<in> set xs \<Longrightarrow> distinct (g x) \<and> (\<forall>k \<in> set (g x). h k = f x)) \<Longrightarrow>
   distinct (concat (map g xs))"
proof (induction xs)
  case Nil
  then show ?case by simp
next
  case (Cons x xs)
  from Cons.prems have fx: "f x \<notin> f ` set xs" and d: "distinct (map f xs)" by auto
  have "set (g x) \<inter> set (concat (map g xs)) = {}"
  proof (rule ccontr)
    assume "set (g x) \<inter> set (concat (map g xs)) \<noteq> {}"
    then obtain k x' where k: "k \<in> set (g x)" "x' \<in> set xs" "k \<in> set (g x')" by auto
    with Cons.prems(2)[of x] Cons.prems(2)[of x'] have "f x = f x'" by auto
    with fx k(2) show False by auto
  qed
  moreover from Cons.prems(2)[of x] have "distinct (g x)" by simp
  moreover from Cons.IH[OF d] Cons.prems(2) have "distinct (concat (map g xs))" by simp
  ultimately show ?case by simp
qed

text \<open>The row labels a sample contributes to a source.\<close>

lemma somes_index_concat:
  "map_err F xs = Inr objs \<Longrightarrow>
   concat (map index (somes objs))
     = concat (map (\<lambda>x. case F x of Inr (Some T) \<Rightarrow> index T | _ \<Rightarrow> []) xs)"
proof (induction xs arbitrary: objs)
  case Nil
  then show ?case by (simp add: somes_def)
next
  case (Cons x xs)
  then obtain y ys where y: "F x = Inr y" and ys: "map_err F xs = Inr ys" and o: "objs = y # ys"
    by (auto split: sum.splits)
  from Cons.IH[OF ys] have "concat (map index (somes ys))
     = concat (map (\<lambda>x. case F x of Inr (Some T) \<Rightarrow> index T | _ \<Rightarrow> []) xs)" .
  moreover have "somes (y # ys) = (case y of None \<Rightarrow> [] | Some T \<Rightarrow> [T]) @ somes ys"
    by (simp add: somes_def)
  ultimately show ?case using y o by (simp split: option.splits)
qed

lemma concat_rows_returns:
  assumes "somes objs \<noteq> []" "\<And>df. df \<in> set (somes objs) \<Longrightarrow> distinct (labels df)"
  shows "\<exists>S. concat_rows objs = Inr S"
  using assms unfolding concat_rows_def Let_def by (auto simp: list_ex_iff)

lemma do_annotyp_returns:
  assumes env: "\<And>p na raw. read_csv p na = Inr raw \<Longrightarrow> wf_frame raw"
    and ok: "set_iter_ok it"
    and uniq: "distinct (map (\<lambda>s. (sample2indivID s, sample2tissue s)) samples)"
    and others: "\<forall>s' \<in> set samples. \<exists>r.
        get_annot read_csv it annotdirpath na_values simplecolumns s' annotyp = Inr r"
    and some: "\<exists>s' \<in> set samples. \<exists>T'.
        get_annot read_csv it annotdirpath na_values simplecolumns s' annotyp = Inr (Some T')"
  shows "\<exists>S. do_annotyp read_csv it annotdirpath na_values simplecolumns samples annotyp = Inr S
           \<and> distinct (index S)"
proof -
  let ?G = "\<lambda>s. get_annot read_csv it annotdirpath na_values simplecolumns s annotyp"
  have "\<exists>objs. map_err ?G samples = Inr objs"
    by (rule map_err_returns) (use others in blast)
  then obtain objs where objs: "map_err ?G samples = Inr objs" by blast
  from some obtain s' T' where s': "s' \<in> set samples" "?G s' = Inr (Some T')" by blast
  with map_err_mem[OF objs, of s'] have "Some T' \<in> set objs" by auto
  then have ne: "somes objs \<noteq> []" using somes_iff[of T' objs] by auto
  have props: "distinct (labels df)" if "df \<in> set (somes objs)" for df
  proof -
    from that have "Some df \<in> set objs" by (simp add: somes_iff)
    with map_err_mem[OF objs, of _ "Some df"] obtain x where "?G x = Inr (Some df)" by blast
    have "distinct (labels df) \<and> distinct (index df)
       \<and> (\<forall>k \<in> set (index df). key_individual k = sample2indivID x
              \<and> key_tissue k = sample2tissue x)"
      by (rule get_annot_props[where read_csv = read_csv, OF _ ok \<open>?G x = Inr (Some df)\<close>])
        (rule env)
    then show ?thesis by simp
  qed
  from concat_rows_returns[OF ne props] obtain S where S: "concat_rows objs = Inr S" by blast
  have "distinct (concat (map (\<lambda>x. case ?G x of Inr (Some T) \<Rightarrow> index T | _ \<Rightarrow> []) samples))"
  proof (rule distinct_concat_keyed[OF uniq, where h = "\<lambda>k. (key_individual k, key_tissue k)"])
    fix x assume "x \<in> set samples"
    show "distinct (case ?G x of Inr (Some T) \<Rightarrow> index T | _ \<Rightarrow> [])
        \<and> (\<forall>k \<in> set (case ?G x of Inr (Some T) \<Rightarrow> index T | _ \<Rightarrow> []).
              (key_individual k, key_tissue k) = (sample2indivID x, sample2tissue x))"
    proof (cases "?G x")
      case (Inl e)
      then show ?thesis by simp
    next
      case (Inr r)
      show ?thesis
      proof (cases r)
        case None
        with Inr show ?thesis by simp
      next
        case (Some T)
        with Inr have "?G x = Inr (Some T)" by simp
        have "distinct (labels T) \<and> distinct (index T)
           \<and> (\<forall>k \<in> set (index T). key_individual k = sample2indivID x
                  \<and> key_tissue k = sample2tissue x)"
          by (rule get_annot_props[where read_csv = read_csv, OF _ ok \<open>?G x = Inr (Some T)\<close>])
            (rule env)
        with Inr Some show ?thesis by simp
      qed
    qed
  qed
  with somes_index_concat[OF objs] concat_rows_index_somes[OF S]
  have "distinct (index S)" by simp
  with objs S show ?thesis by (auto simp: do_annotyp_def)
qed

lemma concat_cols_returns:
  assumes "fs \<noteq> []" "\<And>S. S \<in> set fs \<Longrightarrow> distinct (index S)"
  shows "\<exists>U. concat_cols un fs = Inr U"
proof -
  have "\<exists>gs. map_err (\<lambda>df. reindex_rows df (un (concat (map index fs)))) fs = Inr gs"
    by (rule map_err_returns) (use assms(2) in \<open>auto simp: reindex_rows_def\<close>)
  then obtain gs where
    "map_err (\<lambda>df. reindex_rows df (un (concat (map index fs)))) fs = Inr gs" by blast
  with assms show ?thesis
    unfolding concat_cols_def Let_def by (auto simp: list_ex_iff)
qed

text \<open>
  When the join returns: every pair is read or skipped, every source has a sample
  whose table is read, and no two samples of the manifest stand for the same
  individual and tissue.
\<close>

lemma join_returns:
  assumes env: "\<And>p na raw. read_csv p na = Inr raw \<Longrightarrow> wf_frame raw"
    and ok: "set_iter_ok it"
    and samples: "read_vcflist vcflistpath = Inr samples"
    and ne: "annotlist \<noteq> []"
    and uniq: "distinct (map (\<lambda>s. (sample2indivID s, sample2tissue s)) samples)"
    and others: "\<forall>s' \<in> set samples. \<forall>a' \<in> set annotlist. \<exists>r.
        get_annot read_csv it annotdirpath na_values simplecolumns s' a' = Inr r"
    and some: "\<forall>a' \<in> set annotlist. \<exists>s' \<in> set samples. \<exists>T'.
        get_annot read_csv it annotdirpath na_values simplecolumns s' a' = Inr (Some T')"
  shows "\<exists>U. get_multi_annotations read_vcflist read_csv it un annotlist vcflistpath
                annotdirpath na_values simplecolumns = Inr U"
proof -
  let ?D = "do_annotyp read_csv it annotdirpath na_values simplecolumns samples"
  have each: "\<exists>S. ?D a' = Inr S \<and> distinct (index S)" if "a' \<in> set annotlist" for a'
    by (rule do_annotyp_returns[where read_csv = read_csv, OF _ ok uniq])
      (use env others some that in blast)+
  have "\<exists>fs. map_err ?D annotlist = Inr fs"
    by (rule map_err_returns) (use each in blast)
  then obtain fs where fs: "map_err ?D annotlist = Inr fs" by blast
  from map_err_Inr[OF fs] ne have fne: "fs \<noteq> []" by auto
  have "distinct (index S)" if "S \<in> set fs" for S
  proof -
    from map_err_mem[OF fs, of _ S] that obtain a' where "a' \<in> set annotlist" "?D a' = Inr S"
      by blast
    with each[of a'] show ?thesis by simp
  qed
  from concat_cols_returns[OF fne this] obtain U where "concat_cols un fs = Inr U" by blast
  with samples fs show ?thesis by (simp add: get_multi_annotations_def)
qed

text \<open>
  When every sample of one source is skipped, the stacking of that source has nothing
  to stack and the join fails.
\<close>

lemma map_err_fails: "x \<in> set xs \<Longrightarrow> f x = Inl e \<Longrightarrow> \<exists>e'. map_err f xs = Inl e'"
  by (induction xs) (auto split: sum.splits)

lemma somes_all_None: "\<forall>y \<in> set objs. y = None \<Longrightarrow> somes objs = []"
  by (induction objs) (auto simp: somes_def)

lemma do_annotyp_all_skipped:
  assumes "\<forall>s' \<in> set samples.
      get_annot read_csv it annotdirpath na_values simplecolumns s' a = Inr None"
  shows "do_annotyp read_csv it annotdirpath na_values simplecolumns samples a = Inl ValueError"
proof -
  let ?G = "\<lambda>s. get_annot read_csv it annotdirpath na_values simplecolumns s a"
  from assms have "\<And>x. x \<in> set samples \<Longrightarrow> ?G x = Inr ((\<lambda>x. None) x)" by simp
  from map_err_all[OF this] have "map_err ?G samples = Inr (map (\<lambda>x. None) samples)" .
  moreover have "somes (map (\<lambda>x. None) samples) = ([] :: (variant_key, label) frame list)"
    by (rule somes_all_None) auto
  ultimately show ?thesis by (simp add: do_annotyp_def concat_rows_def)
qed

lemma join_fails_when_source_all_skipped:
  assumes samples: "read_vcflist vcflistpath = Inr samples"
    and a: "a \<in> set annotlist"
    and skipped: "\<forall>s' \<in> set samples.
      get_annot read_csv it annotdirpath na_values simplecolumns s' a = Inr None"
  shows "\<exists>e. get_multi_annotations read_vcflist read_csv it un annotlist vcflistpath
                annotdirpath na_values simplecolumns = Inl e"
proof -
  from map_err_fails[where f = "do_annotyp read_csv it annotdirpath na_values simplecolumns samples",
      OF a do_annotyp_all_skipped[OF skipped]] obtain e where
    "map_err (do_annotyp read_csv it annotdirpath na_values simplecolumns samples) annotlist
       = Inl e" by blast
  with samples show ?thesis by (simp add: get_multi_annotations_def)
qed

text \<open>
  C1 (amended). Called with the missing-value markers as a dictionary, the Joiner
  skips a (sample, source) pair when reading it raises a ValueError (a table with no
  data row, an identity token that does not split into three fields, a position that
  is not a number, a parser error): the pair contributes nothing. The join then
  returns a table, and does not fail, provided that every other pair is read or
  skipped in the same way (any other exception, such as the FileNotFoundError of an
  absent file, leaves the Joiner), that every source has at least one sample whose
  table is read (a source whose samples are all skipped has nothing to stack, and
  \<^verbatim>\<open>pd.concat\<close> raises ValueError outside the \<^verbatim>\<open>try\<close>), and that no two samples of
  the manifest stand for the same individual and tissue. In the table returned, every
  row that another source \<open>b\<close> contributes for the sample is a row, holding the values
  of that source's table in its columns and missing values in the columns of the
  skipped source. The files read are well-formed tables (distinct headers, one cell
  per row and column).
\<close>

theorem get_multi_annotations_skips_value_error:
  assumes env: "\<And>p na raw. read_csv p na = Inr raw \<Longrightarrow> wf_frame raw"
    and it: "set_iter_ok it" and un: "set_iter_ok un"
    and samples: "read_vcflist vcflistpath = Inr samples"
    and uniq: "distinct (map (\<lambda>s. (sample2indivID s, sample2tissue s)) samples)"
    and s: "s \<in> set samples" and a: "a \<in> set annotlist" and b: "b \<in> set annotlist"
    and bad: "read_TXT_per_annotation read_csv
                (annotdirpath @ ''/'' @ s @ ''/'' @ a @ ''.txt'')
                (sample2indivID s) (sample2tissue s) None
                (case map_of d a of Some v \<Rightarrow> v | None \<Rightarrow> []) simplecolumns = Inl ValueError"
    and good: "get_annot read_csv it annotdirpath (NaDict d) simplecolumns s b = Inr (Some T)"
    and j: "j < length (index T)"
    and others: "\<forall>s' \<in> set samples. \<forall>a' \<in> set annotlist. \<exists>r.
                   get_annot read_csv it annotdirpath (NaDict d) simplecolumns s' a' = Inr r"
    and some: "\<forall>a' \<in> set annotlist. \<exists>s' \<in> set samples. \<exists>T'.
                   get_annot read_csv it annotdirpath (NaDict d) simplecolumns s' a' = Inr (Some T')"
  shows "get_annot read_csv it annotdirpath (NaDict d) simplecolumns s a = Inr None
       \<and> (\<exists>U Sa i.
             get_multi_annotations read_vcflist read_csv it un annotlist vcflistpath
               annotdirpath (NaDict d) simplecolumns = Inr U
           \<and> do_annotyp read_csv it annotdirpath (NaDict d) simplecolumns samples a = Inr Sa
           \<and> i < length (index U) \<and> index U ! i = index T ! j
           \<and> (\<forall>(l, c) \<in> set (cols T). \<exists>c'. (l, c') \<in> set (cols U) \<and> cells c' ! i = cells c ! j)
           \<and> (\<forall>(l, c) \<in> set (cols Sa). \<exists>c'. (l, c') \<in> set (cols U) \<and> cells c' ! i = NaN))"
proof -
  let ?G = "\<lambda>s a. get_annot read_csv it annotdirpath (NaDict d) simplecolumns s a"
  let ?f = "\<lambda>s. (sample2indivID s, sample2tissue s)"
  have skip: "?G s a = Inr None" by (rule get_annot_skip[OF bad])
  from a have ne: "annotlist \<noteq> []" by auto
  have "\<exists>U. get_multi_annotations read_vcflist read_csv it un annotlist vcflistpath
                annotdirpath (NaDict d) simplecolumns = Inr U"
    by (rule join_returns[where read_csv = read_csv and read_vcflist = read_vcflist
          and vcflistpath = vcflistpath, OF _ it samples ne uniq others some]) (rule env)
  then obtain U where run: "get_multi_annotations read_vcflist read_csv it un annotlist
                vcflistpath annotdirpath (NaDict d) simplecolumns = Inr U" by blast
  have props: "distinct (labels T') \<and> distinct (index T')
       \<and> (\<forall>k \<in> set (index T'). key_individual k = sample2indivID s'
              \<and> key_tissue k = sample2tissue s')"
    if "?G s' a' = Inr (Some T')" for s' a' T'
    by (rule get_annot_props[where read_csv = read_csv, OF _ it that]) (rule env)
  from j have kT: "index T ! j \<in> set (index T)" by simp
  from props[OF good] kT
  have ks: "(key_individual (index T ! j), key_tissue (index T ! j)) = ?f s" by simp
  have absent: "\<forall>s' \<in> set samples. \<forall>T'. ?G s' a = Inr (Some T')
                   \<longrightarrow> index T ! j \<notin> set (index T')"
  proof (intro ballI allI impI notI)
    fix s' T' assume s': "s' \<in> set samples" and g: "?G s' a = Inr (Some T')"
      and k: "index T ! j \<in> set (index T')"
    from g skip have "s' \<noteq> s" by auto
    with uniq s s' have "?f s' \<noteq> ?f s" by (auto simp: distinct_map inj_on_def)
    moreover from props[OF g] k
    have "(key_individual (index T ! j), key_tissue (index T ! j)) = ?f s'" by simp
    ultimately show False using ks by simp
  qed
  have "get_annot read_csv it annotdirpath (NaDict d) simplecolumns s a = Inr None
       \<and> (\<exists>Sa i. do_annotyp read_csv it annotdirpath (NaDict d) simplecolumns samples a = Inr Sa
             \<and> i < length (index U) \<and> index U ! i = index T ! j
             \<and> (\<forall>(l, c) \<in> set (cols T). \<exists>c'. (l, c') \<in> set (cols U) \<and> cells c' ! i = cells c ! j)
             \<and> (\<forall>(l, c) \<in> set (cols Sa). \<exists>c'. (l, c') \<in> set (cols U) \<and> cells c' ! i = NaN))"
    by (rule join_keeps_rows[where read_csv = read_csv, OF _ it un run samples s a b bad good j
          absent]) (rule env)
  with run show ?thesis by blast
qed

lemma example_files_wf:
  "example_files (Inr header_only_example) p na = Inr raw \<Longrightarrow> wf_frame raw"
  by (auto simp: example_files_def wf_frame_def lengths_ok_def labels_def near_gens_example_def
      sift_example_def header_only_example_def split: if_splits)

lemma example_run:
  "get_multi_annotations (\<lambda>p. Inr example_samples) (example_files (Inr header_only_example))
     remdups remdups [''near_gens'', ''sift''] ''vcfs.tsv'' ''/annot'' (NaDict []) True
   = Inr joined_example"
  by code_simp

lemma example_sift_skipped:
  "get_annot (example_files (Inr header_only_example)) remdups ''/annot'' (NaDict []) True
     ''MSSM_1_NeuN_pl'' ''sift'' = Inr None"
  by code_simp

lemma example_sift_other:
  "get_annot (example_files (Inr header_only_example)) remdups ''/annot'' (NaDict []) True
     ''PITT_2_muscle'' ''sift''
   = Inr (Some (Frame [VariantKey ''CMC_PITT_2'' ''muscle'' ''1'' 12345 ''A/G'']
                  [(Simple ''sift_Score'', Column Float64 [Num 3])]))"
  by code_simp

lemma example_near_gens_read:
  "get_annot (example_files (Inr header_only_example)) remdups ''/annot'' (NaDict []) True
     ''MSSM_1_NeuN_pl'' ''near_gens'' = Inr (Some near_gens_table)"
  by code_simp

lemma example_near_gens_skipped:
  "get_annot (example_files (Inr header_only_example)) remdups ''/annot'' (NaDict []) True
     ''PITT_2_muscle'' ''near_gens'' = Inr None"
  by code_simp

theorem get_multi_annotations_skips_value_error_witness:
  "get_annot (example_files (Inr header_only_example)) remdups ''/annot'' (NaDict []) True
       ''MSSM_1_NeuN_pl'' ''sift'' = Inr None
   \<and> (\<exists>Sa i.
         get_multi_annotations (\<lambda>p. Inr example_samples)
           (example_files (Inr header_only_example)) remdups remdups
           [''near_gens'', ''sift''] ''vcfs.tsv'' ''/annot'' (NaDict []) True = Inr joined_example
         \<and> do_annotyp (example_files (Inr header_only_example)) remdups ''/annot''
                 (NaDict []) True example_samples ''sift'' = Inr Sa
         \<and> i < length (index joined_example)
         \<and> index joined_example ! i = index near_gens_table ! 0
         \<and> (\<forall>(l, c) \<in> set (cols near_gens_table).
               \<exists>c'. (l, c') \<in> set (cols joined_example) \<and> cells c' ! i = cells c ! 0)
         \<and> (\<forall>(l, c) \<in> set (cols Sa).
               \<exists>c'. (l, c') \<in> set (cols joined_example) \<and> cells c' ! i = NaN))"
proof -
  let ?rc = "example_files (Inr header_only_example)"
  let ?G = "get_annot ?rc remdups ''/annot'' (NaDict []) True"
  have it: "set_iter_ok (remdups :: variant_key list \<Rightarrow> variant_key list)"
    by (simp add: set_iter_ok_def)
  have uniq: "distinct (map (\<lambda>s. (sample2indivID s, sample2tissue s)) example_samples)"
    by code_simp
  have s: "''MSSM_1_NeuN_pl'' \<in> set example_samples" by (simp add: example_samples_def)
  have a: "''sift'' \<in> set [''near_gens'', ''sift'']" by simp
  have b: "''near_gens'' \<in> set [''near_gens'', ''sift'']" by simp
  have bad: "read_TXT_per_annotation ?rc
                (''/annot'' @ ''/'' @ ''MSSM_1_NeuN_pl'' @ ''/'' @ ''sift'' @ ''.txt'')
                (sample2indivID ''MSSM_1_NeuN_pl'') (sample2tissue ''MSSM_1_NeuN_pl'') None
                (case map_of [] ''sift'' of Some v \<Rightarrow> v | None \<Rightarrow> []) True = Inl ValueError"
    by code_simp
  have j: "0 < length (index near_gens_table)" by (simp add: near_gens_table_def)
  have others: "\<forall>s' \<in> set example_samples. \<forall>a' \<in> set [''near_gens'', ''sift''].
      \<exists>r. ?G s' a' = Inr r"
    using example_sift_skipped example_sift_other example_near_gens_read
      example_near_gens_skipped
    by (simp add: example_samples_def)
  have some: "\<forall>a' \<in> set [''near_gens'', ''sift'']. \<exists>s' \<in> set example_samples.
      \<exists>T'. ?G s' a' = Inr (Some T')"
    using example_sift_other example_near_gens_read
    by (simp add: example_samples_def)
  have "?G ''MSSM_1_NeuN_pl'' ''sift'' = Inr None
       \<and> (\<exists>U Sa i.
             get_multi_annotations (\<lambda>p. Inr example_samples) ?rc remdups remdups
               [''near_gens'', ''sift''] ''vcfs.tsv'' ''/annot'' (NaDict []) True = Inr U
           \<and> do_annotyp ?rc remdups ''/annot'' (NaDict []) True example_samples ''sift'' = Inr Sa
           \<and> i < length (index U) \<and> index U ! i = index near_gens_table ! 0
           \<and> (\<forall>(l, c) \<in> set (cols near_gens_table).
                 \<exists>c'. (l, c') \<in> set (cols U) \<and> cells c' ! i = cells c ! 0)
           \<and> (\<forall>(l, c) \<in> set (cols Sa). \<exists>c'. (l, c') \<in> set (cols U) \<and> cells c' ! i = NaN))"
    by (rule get_multi_annotations_skips_value_error[where read_csv = ?rc
          and read_vcflist = "\<lambda>p. Inr example_samples" and vcflistpath = "''vcfs.tsv''",
          OF _ it it refl uniq s a b bad example_near_gens_read j others some])
      (rule example_files_wf)
  then show ?thesis unfolding example_run by blast
qed

text \<open>
  C1 as stated fails for an absent file: \<^verbatim>\<open>pd.read_csv\<close> raises FileNotFoundError,
  which \<^verbatim>\<open>except ValueError\<close> does not catch, and the whole join fails although the
  sample's other source is there. A file without the identity column fails the same
  way, with KeyError. And a malformed file that is skipped still makes the join fail
  when it is the file of the only sample of its source: with the first sample alone
  in the manifest and a \<open>sift\<close> file holding only the header line, the pair is
  skipped and the stacking of the source \<open>sift\<close> raises ValueError.
\<close>

theorem get_multi_annotations_absent_file_counterexample:
  "example_files (Inl FileNotFoundError) ''/annot/MSSM_1_NeuN_pl/sift.txt'' []
     = Inl FileNotFoundError
   \<and> get_annot (example_files (Inl FileNotFoundError)) remdups ''/annot'' (NaDict []) True
       ''MSSM_1_NeuN_pl'' ''near_gens'' = Inr (Some near_gens_table)
   \<and> get_multi_annotations (\<lambda>p. Inr example_samples) (example_files (Inl FileNotFoundError))
       remdups remdups [''near_gens'', ''sift''] ''vcfs.tsv'' ''/annot'' (NaDict []) True
     = Inl FileNotFoundError
   \<and> get_multi_annotations (\<lambda>p. Inr example_samples) (example_files (Inr no_id_example))
       remdups remdups [''near_gens'', ''sift''] ''vcfs.tsv'' ''/annot'' (NaDict []) True
     = Inl KeyError
   \<and> get_annot (example_files (Inr header_only_example)) remdups ''/annot'' (NaDict []) True
       ''MSSM_1_NeuN_pl'' ''sift'' = Inr None
   \<and> get_multi_annotations (\<lambda>p. Inr [''MSSM_1_NeuN_pl''])
       (example_files (Inr header_only_example))
       remdups remdups [''near_gens'', ''sift''] ''vcfs.tsv'' ''/annot'' (NaDict []) True
     = Inl ValueError"
  by code_simp

end
